theory Spec2Isabelle
  imports
    Main
    "HOL-Library.Extended_Nat"
    "HOL-Library.Char_ord"
    "HOL-Library.List_Lexorder"
    "HOL-Library.Multiset"
begin

section \<open>Strings of the host language\<close>

text \<open>
  A string is a list of code units; \<^typ>\<open>char\<close> covers the code units below 256.
  Strings are compared code unit by code unit (\<open>List_Lexorder\<close> over \<open>Char_ord\<close>),
  which is the order in which the host compares strings.
\<close>

abbreviation LF :: char where "LF \<equiv> CHR 0x0A"
abbreviation CR :: char where "CR \<equiv> CHR 0x0D"
abbreviation SP :: char where "SP \<equiv> CHR 0x20"
abbreviation BACKSLASH :: char where "BACKSLASH \<equiv> CHR 0x5C"
abbreviation QUOTE :: char where "QUOTE \<equiv> CHR 0x27"
abbreviation DOLLAR :: char where "DOLLAR \<equiv> CHR 0x24"

text \<open>The class \<open>\s\<close> of a regular expression, which is also what \<open>trim\<close> strips:
  tab, line feed, vertical tab, form feed, carriage return, space, no-break space.\<close>

definition is_space :: "char \<Rightarrow> bool" where
  "is_space c =
     (c = CHR 0x09 \<or> c = LF \<or> c = CHR 0x0B \<or> c = CHR 0x0C \<or> c = CR \<or> c = SP \<or> c = CHR 0xA0)"

text \<open>The line terminators after which \<open>^\<close> matches under the \<open>m\<close> flag.\<close>

definition is_line_terminator :: "char \<Rightarrow> bool" where
  "is_line_terminator c = (c = LF \<or> c = CR)"

definition trimStart :: "string \<Rightarrow> string" where
  "trimStart s = dropWhile is_space s"

definition trimEnd :: "string \<Rightarrow> string" where
  "trimEnd s = rev (dropWhile is_space (rev s))"

definition trim :: "string \<Rightarrow> string" where
  "trim s = trimEnd (trimStart s)"

text \<open>\<open>s.includes('\n')\<close>\<close>

definition includes_nl :: "string \<Rightarrow> bool" where
  "includes_nl s = (LF \<in> set s)"

text \<open>\<open>xs.join(sep)\<close> on an array of strings.\<close>

fun join :: "string \<Rightarrow> string list \<Rightarrow> string" where
  "join sep [] = []"
| "join sep [x] = x"
| "join sep (x # y # ys) = x @ sep @ join sep (y # ys)"

text \<open>\<open>new Array(n + 1).join(' ')\<close>\<close>

definition spaceWithLength :: "nat \<Rightarrow> string" where
  "spaceWithLength n = replicate n SP"

text \<open>\<open>text.split(/\r?\n/g)\<close>: the text is cut at every line feed, and a carriage
  return right before the line feed belongs to the separator. The first argument is the
  line read so far.\<close>

fun split_lines_from :: "string \<Rightarrow> string \<Rightarrow> string list" where
  "split_lines_from cur [] = [cur]"
| "split_lines_from cur [c] =
     (if c = LF then [cur, []] else [cur @ [c]])"
| "split_lines_from cur (c # d # ds) =
     (if c = LF then cur # split_lines_from [] (d # ds)
      else if c = CR \<and> d = LF then cur # split_lines_from [] ds
      else split_lines_from (cur @ [c]) (d # ds))"

definition split_lines :: "string \<Rightarrow> string list" where
  "split_lines s = split_lines_from [] s"

text \<open>The replacement text of \<open>String.prototype.replace\<close> for a pattern without
  capture groups: \<open>$$\<close> is a dollar, \<open>$&\<close> the match, \<open>$`\<close> the text before the
  match, \<open>$'\<close> the text after it; everything else stands for itself.\<close>

fun get_substitution :: "string \<Rightarrow> string \<Rightarrow> string \<Rightarrow> string \<Rightarrow> string" where
  "get_substitution matched preceding following [] = []"
| "get_substitution matched preceding following [c] = [c]"
| "get_substitution matched preceding following (c # d # ds) =
     (if c = DOLLAR \<and> d = DOLLAR then DOLLAR # get_substitution matched preceding following ds
      else if c = DOLLAR \<and> d = CHR 0x26 then matched @ get_substitution matched preceding following ds
      else if c = DOLLAR \<and> d = CHR 0x60 then preceding @ get_substitution matched preceding following ds
      else if c = DOLLAR \<and> d = QUOTE then following @ get_substitution matched preceding following ds
      else c # get_substitution matched preceding following (d # ds))"

text \<open>\<open>l.replace(new RegExp('^' + ' '.repeat(m), 'gm'), repl)\<close>: every match of
  \<open>m\<close> spaces at the start of the string or right after a line terminator is replaced.
  \<open>preceding\<close> is the text already passed, \<open>atStart\<close> says whether \<open>^\<close> matches
  here. After an empty match the scan moves on by one code unit.\<close>

function replace_indent :: "nat \<Rightarrow> string \<Rightarrow> string \<Rightarrow> bool \<Rightarrow> string \<Rightarrow> string" where
  "replace_indent m repl preceding atStart rest =
     (if atStart \<and> m \<le> length rest \<and> take m rest = replicate m SP then
        get_substitution (take m rest) preceding (drop m rest) repl @
          (if m = 0 then
             (case rest of
                [] \<Rightarrow> []
              | c # cs \<Rightarrow> c # replace_indent m repl (preceding @ [c]) (is_line_terminator c) cs)
           else replace_indent m repl (preceding @ take m rest) False (drop m rest))
      else
        (case rest of
           [] \<Rightarrow> []
         | c # cs \<Rightarrow> c # replace_indent m repl (preceding @ [c]) (is_line_terminator c) cs))"
  by pat_completeness auto
termination
  by (relation "measure (\<lambda>(m, repl, preceding, atStart, rest). length rest)") auto

section \<open>Render parameters and results\<close>

datatype error =
    ExpectedOneMoreString
      \<comment> \<open>\<open>Expected a tagged template to be invoked with exactly one more string than interpolation\<close>\<close>
  | ExpectedAtLeastOneString
      \<comment> \<open>\<open>Expected at least one interpolated string\<close>\<close>
  | ExpectsOneMoreString
      \<comment> \<open>\<open>A tagged template expects exactly one more string than interpolation value\<close>\<close>
  | TypeError
      \<comment> \<open>the host refuses to convert a symbol to a string\<close>
  | DanglingReference
      \<comment> \<open>a reference to no object: the host has none, the model must answer\<close>

text \<open>\<open>RenderParams\<close> without its \<open>render\<close> field, which the model passes as an
  argument of its own. The wrap width is a natural number or \<open>+\<infinity>\<close>.\<close>

record RenderParams =
  wrapWidth :: enat
  indent :: string
  indentIncrement :: string

record RenderResult =
  isMultiline :: bool
  content :: string

section \<open>interpolate\<close>

fun interpolate_loop :: "string \<Rightarrow> string list \<Rightarrow> string list \<Rightarrow> error + string" where
  "interpolate_loop s (str # strs) (i # ips) = interpolate_loop (s @ i @ str) strs ips"
| "interpolate_loop s [] [] = Inr s"
| "interpolate_loop s _ _ = Inl ExpectsOneMoreString"

fun interpolate :: "string list \<Rightarrow> string list \<Rightarrow> error + string" where
  "interpolate [] interpolations = Inl ExpectedAtLeastOneString"
| "interpolate (str # strs) interpolations = interpolate_loop str strs interpolations"

section \<open>Values and nodes\<close>

text \<open>
  Primitive values; a number is an integer that the host prints in plain decimal
  (magnitude below \<open>10\<^sup>2\<^sup>1\<close>), a symbol carries its description.
\<close>

datatype prim =
  Undefined | Null | Bool bool | Number int | BigInt int | Symbol string | Str string

text \<open>
  A value is a primitive, a reference to an object of the heap (an object has an identity:
  its address), or a node written in place. A node written in place stands for a node
  object whose identity occurs nowhere else: the driver adds that identity to the
  ancestry set, renders, and deletes it again, and no membership test can ever see it.
  A node that is shared or lies on a cycle is an object of the heap.

  The interpolations of a Text node are values like those of the other nodes: the node
  converts them to strings by the host's \<open>'' + x\<close> when it renders.
\<close>

type_synonym addr = nat

datatype jsval = Prim prim | Ref addr | NodeV node
and node =
    Text "string list" "jsval list"
  | Block "string list" "jsval list"
  | Inline "string list" "jsval list"
  | ListN string "jsval list" bool

text \<open>The composite values the default formatter maps: arrays, sets (items in insertion
  order), maps (entries in insertion order), plain objects and functions (their enumerable
  own properties, in the order of \<open>Object.entries\<close>). A function also carries its source
  text, which is what the host returns when it converts the function to a string.\<close>

datatype obj =
    Array "jsval list"
  | SetObj "jsval list"
  | MapObj "(jsval \<times> jsval) list"
  | Plain "(string \<times> jsval) list"
  | Function string "(string \<times> jsval) list"

text \<open>What an address holds: a composite value, or an object with the node capability
  (\<open>isStringifiable\<close>), which is one of the four built-in kinds; a node of the user's
  own making runs code of the user's and is not modelled.\<close>

datatype cell = Value obj | Stringifiable node

type_synonym heap = "(addr \<times> cell) list"

section \<open>The node constructors\<close>

definition text_node :: "string list \<Rightarrow> jsval list \<Rightarrow> error + node" where
  "text_node strings interpolations = Inr (Text strings interpolations)"

definition block :: "string list \<Rightarrow> jsval list \<Rightarrow> error + node" where
  "block strings interpolations =
     (if length strings \<noteq> length interpolations + 1 then Inl ExpectedOneMoreString
      else Inr (Block strings interpolations))"

definition inline :: "string list \<Rightarrow> jsval list \<Rightarrow> error + node" where
  "inline strings interpolations =
     (if length strings \<noteq> length interpolations + 1 then Inl ExpectedOneMoreString
      else Inr (Inline strings interpolations))"

definition list_node :: "string \<Rightarrow> jsval list \<Rightarrow> bool \<Rightarrow> error + node" where
  "list_node joiner items sort_opt = Inr (ListN joiner items sort_opt)"

section \<open>Conversion of primitives to strings\<close>

definition digit_char :: "nat \<Rightarrow> char" where
  "digit_char d = char_of (48 + d)"

fun digits :: "nat \<Rightarrow> string" where
  "digits n = (if n < 10 then [digit_char n] else digits (n div 10) @ [digit_char (n mod 10)])"

definition show_int :: "int \<Rightarrow> string" where
  "show_int i = (if i < 0 then CHR ''-'' # digits (nat (- i)) else digits (nat i))"

text \<open>\<open>'' + x\<close> on a primitive; the host refuses to convert a symbol.\<close>

fun to_string :: "prim \<Rightarrow> error + string" where
  "to_string Undefined = Inr ''undefined''"
| "to_string Null = Inr ''null''"
| "to_string (Bool b) = Inr (if b then ''true'' else ''false'')"
| "to_string (Number n) = Inr (show_int n)"
| "to_string (BigInt n) = Inr (show_int n)"
| "to_string (Symbol d) = Inl TypeError"
| "to_string (Str s) = Inr s"

text \<open>\<open>xs.map(f)\<close> for a conversion \<open>f\<close> to a string that may throw (\<open>Inl\<close>) or not
  return (\<open>None\<close>): the first conversion that does so ends the map.\<close>

fun convert_all :: "('v \<Rightarrow> (error + string) option) \<Rightarrow> 'v list \<Rightarrow> (error + string list) option" where
  "convert_all f [] = Some (Inr [])"
| "convert_all f (x # xs) =
     (case f x of
        None \<Rightarrow> None
      | Some (Inl e) \<Rightarrow> Some (Inl e)
      | Some (Inr s) \<Rightarrow>
          (case convert_all f xs of
             None \<Rightarrow> None
           | Some (Inl e) \<Rightarrow> Some (Inl e)
           | Some (Inr ss) \<Rightarrow> Some (Inr (s # ss))))"

text \<open>\<open>'' + x\<close> on any value: a primitive is converted as above, an object by the
  conversion of the host, \<open>objToString\<close>, which calls the object's \<open>toString\<close> method.\<close>

definition string_of :: "(jsval \<Rightarrow> (error + string) option) \<Rightarrow> jsval \<Rightarrow> (error + string) option" where
  "string_of objToString x = (case x of Prim y \<Rightarrow> Some (to_string y) | _ \<Rightarrow> objToString x)"

text \<open>\<open>interpolations.map(x => '' + x)\<close>\<close>

definition to_strings ::
  "(jsval \<Rightarrow> (error + string) option) \<Rightarrow> jsval list \<Rightarrow> (error + string list) option" where
  "to_strings objToString interpolations = convert_all (string_of objToString) interpolations"

section \<open>String literals and keys\<close>

text \<open>The table \<open>escapeSubstitutes\<close>, applied to every code unit the pattern
  \<open>/\0|\x08|\f|\n|\r|\t|\v|\\|\'/g\<close> matches.\<close>

definition escapeSubstitutes :: "char \<Rightarrow> string" where
  "escapeSubstitutes c =
     (if c = CHR 0x00 then [BACKSLASH, CHR ''0'']
      else if c = CHR 0x08 then [BACKSLASH, CHR ''b'']
      else if c = CHR 0x0C then [BACKSLASH, CHR ''f'']
      else if c = LF then [BACKSLASH, CHR ''n'']
      else if c = CR then [BACKSLASH, CHR ''r'']
      else if c = CHR 0x09 then [BACKSLASH, CHR ''t'']
      else if c = CHR 0x0B then [BACKSLASH, CHR ''v'']
      else if c = BACKSLASH then [BACKSLASH, BACKSLASH]
      else if c = QUOTE then [BACKSLASH, CHR ''t'']
      else [c])"

definition stringifyStringLiteral :: "string \<Rightarrow> string" where
  "stringifyStringLiteral s = QUOTE # concat (map escapeSubstitutes s) @ [QUOTE]"

definition is_name_start :: "char \<Rightarrow> bool" where
  "is_name_start c =
     ((CHR ''a'' \<le> c \<and> c \<le> CHR ''z'') \<or> (CHR ''A'' \<le> c \<and> c \<le> CHR ''Z'') \<or> c = CHR ''_'')"

definition is_name_char :: "char \<Rightarrow> bool" where
  "is_name_char c = (is_name_start c \<or> (CHR ''0'' \<le> c \<and> c \<le> CHR ''9''))"

text \<open>\<open>/^[a-zA-Z_]+[a-zA-Z0-9_]*$/.test(name)\<close>\<close>

fun isNameString :: "string \<Rightarrow> bool" where
  "isNameString [] = False"
| "isNameString (c # cs) = (is_name_start c \<and> list_all is_name_char cs)"

text \<open>\<open>stringifyKey\<close>, by the \<open>typeof\<close> of the key; a reference is a function or an
  object, a node is an object.\<close>

fun stringifyKey :: "heap \<Rightarrow> jsval \<Rightarrow> string" where
  "stringifyKey h (Prim Undefined) = ''[undefined]''"
| "stringifyKey h (Prim (Bool b)) = ''['' @ (if b then ''true'' else ''false'') @ '']''"
| "stringifyKey h (Prim (Symbol d)) = ''['' @ ''Symbol('' @ d @ '')'' @ '']''"
| "stringifyKey h (Prim (Number n)) = ''['' @ show_int n @ '']''"
| "stringifyKey h (Prim (BigInt n)) = ''['' @ show_int n @ '']''"
| "stringifyKey h (Prim (Str s)) = (if isNameString s then s else stringifyStringLiteral s)"
| "stringifyKey h (Prim Null) = ''null''"
| "stringifyKey h (Ref a) =
     (case map_of h a of
        Some (Value (Function src props)) \<Rightarrow> ''[<function>]''
      | _ \<Rightarrow> ''[<object>]'')"
| "stringifyKey h (NodeV nd) = ''[<object>]''"

section \<open>Layout of the four node kinds\<close>

text \<open>
  Every node renders in two steps: it renders its children through the \<open>render\<close>
  callback of its parameters, and lays the results out. The layout functions are the
  bodies of the \<open>[stringifySymbol]\<close> methods after the children are rendered.
\<close>

definition indentOfLine :: "string \<Rightarrow> nat" where
  "indentOfLine line = length (takeWhile (\<lambda>c. c = SP) line)"

text \<open>\<open>/^\s*$/.test(l)\<close>\<close>

definition is_blank :: "string \<Rightarrow> bool" where
  "is_blank l = list_all is_space l"

text \<open>\<open>Math.min.apply(Math, ns)\<close>, which is \<open>+\<infinity>\<close> for no numbers.\<close>

definition math_min :: "nat list \<Rightarrow> enat" where
  "math_min ns = fold (\<lambda>n acc. min (enat n) acc) ns \<infinity>"

definition minIndentOf :: "string list \<Rightarrow> nat" where
  "minIndentOf restLines =
     (let nonBlankLines = filter (\<lambda>l. \<not> is_blank l) restLines;
          minIndentSize = math_min (map indentOfLine nonBlankLines)
      in (case minIndentSize of enat n \<Rightarrow> n | \<infinity> \<Rightarrow> 0))"

definition text_layout :: "string list \<Rightarrow> string list \<Rightarrow> RenderParams \<Rightarrow> error + RenderResult" where
  "text_layout strings interpolations p =
     (case interpolate strings interpolations of
        Inl e \<Rightarrow> Inl e
      | Inr txt \<Rightarrow>
          (case split_lines txt of
             [] \<Rightarrow> Inr \<lparr>isMultiline = True, content = []\<rparr>
           | firstLine # restLines \<Rightarrow>
               if restLines = [] then Inr \<lparr>isMultiline = False, content = txt\<rparr>
               else
                 let reIndentedLines =
                       firstLine #
                       map (\<lambda>l. replace_indent (minIndentOf restLines) (indent p) [] True l)
                         restLines
                 in Inr \<lparr>isMultiline = True, content = join [LF] reIndentedLines\<rparr>))"

definition text_render ::
  "(jsval \<Rightarrow> (error + string) option) \<Rightarrow> string list \<Rightarrow> jsval list \<Rightarrow> RenderParams \<Rightarrow>
     (error + RenderResult) option" where
  "text_render objToString strings interpolations p =
     (case to_strings objToString interpolations of
        None \<Rightarrow> None
      | Some (Inl e) \<Rightarrow> Some (Inl e)
      | Some (Inr ss) \<Rightarrow> Some (text_layout strings ss p))"

definition singleLineLength :: "string list \<Rightarrow> RenderResult list \<Rightarrow> nat" where
  "singleLineLength strings rendered =
     sum_list (map length strings) + sum_list (map (\<lambda>r. length (content r)) rendered)"

text \<open>The strings of a block that breaks: trimmed; the first as it is, an empty one
  dropped, every other one on a fresh line at the block's own indent.\<close>

fun block_strings :: "string \<Rightarrow> nat \<Rightarrow> string list \<Rightarrow> string list" where
  "block_strings ind i [] = []"
| "block_strings ind i (s # ss) =
     (let t = trim s in
      (if i = 0 then t else if t = [] then t else LF # ind @ t)) # block_strings ind (Suc i) ss"

definition block_layout :: "string list \<Rightarrow> RenderResult list \<Rightarrow> RenderParams \<Rightarrow> error + RenderResult" where
  "block_layout strings renderedInterpolations p =
     (let childIndent = indent p @ indentIncrement p;
          multi =
            (list_ex isMultiline renderedInterpolations \<or>
             enat (length (indent p) + singleLineLength strings renderedInterpolations) > wrapWidth p \<or>
             list_ex includes_nl strings);
          c =
            (if multi then
               interpolate (block_strings (indent p) 0 strings)
                 (map (\<lambda>x. LF # childIndent @ trim (content x)) renderedInterpolations)
             else interpolate strings (map content renderedInterpolations))
      in (case c of Inl e \<Rightarrow> Inl e | Inr s \<Rightarrow> Inr \<lparr>isMultiline = multi, content = s\<rparr>))"

definition inline_layout :: "string list \<Rightarrow> RenderResult list \<Rightarrow> RenderParams \<Rightarrow> error + RenderResult" where
  "inline_layout strings renderedInterpolations p =
     (let multi =
            (list_ex isMultiline renderedInterpolations \<or>
             enat (length (indent p) + singleLineLength strings renderedInterpolations) > wrapWidth p \<or>
             list_ex includes_nl strings)
      in (case interpolate strings (map content renderedInterpolations) of
            Inl e \<Rightarrow> Inl e
          | Inr s \<Rightarrow> Inr \<lparr>isMultiline = multi, content = s\<rparr>))"

text \<open>\<open>renderedItems.sort(...)\<close> with the comparison of the contents; the host's sort is
  stable.\<close>

definition sort_rendered :: "bool \<Rightarrow> RenderResult list \<Rightarrow> RenderResult list" where
  "sort_rendered sort_opt renderedItems =
     (if sort_opt then sort_key content renderedItems else renderedItems)"

definition list_layout :: "string \<Rightarrow> bool \<Rightarrow> RenderResult list \<Rightarrow> RenderParams \<Rightarrow> RenderResult" where
  "list_layout joiner sort_opt rendered p =
     (let renderedItems = sort_rendered sort_opt rendered;
          sll =
            sum_list (map (\<lambda>x. length (content x)) renderedItems) +
            length joiner * (length renderedItems - 1);
          multi =
            (list_ex isMultiline renderedItems \<or>
             enat (length (indent p) + sll) > wrapWidth p \<or>
             includes_nl joiner)
      in \<lparr>isMultiline = multi,
          content =
            (if multi then join (trimEnd joiner @ LF # indent p) (map content renderedItems)
             else join joiner (map content renderedItems))\<rparr>)"

section \<open>Rendering a node\<close>

text \<open>
  \<open>xs.map(x => render(x, params))\<close> with the effects of the callback written out: the
  callback takes the state and returns the new one, \<open>Inl\<close> is a thrown error (the
  map stops there), \<open>None\<close> a call that does not return.
\<close>

fun render_all ::
  "('v \<Rightarrow> 's \<Rightarrow> ((error + RenderResult) \<times> 's) option) \<Rightarrow> 'v list \<Rightarrow> 's \<Rightarrow>
     ((error + RenderResult list) \<times> 's) option" where
  "render_all f [] s = Some (Inr [], s)"
| "render_all f (x # xs) s =
     (case f x s of
        None \<Rightarrow> None
      | Some (Inl e, s') \<Rightarrow> Some (Inl e, s')
      | Some (Inr r, s') \<Rightarrow>
          (case render_all f xs s' of
             None \<Rightarrow> None
           | Some (Inl e, s'') \<Rightarrow> Some (Inl e, s'')
           | Some (Inr rs, s'') \<Rightarrow> Some (Inr (r # rs), s'')))"

text \<open>\<open>node[stringifySymbol](params)\<close>, where \<open>rnd\<close> is \<open>params.render\<close> and
  \<open>objToString\<close> the host's conversion of an object to a string. A Text node does not
  call \<open>params.render\<close>.\<close>

fun node_render ::
  "(jsval \<Rightarrow> (error + string) option) \<Rightarrow>
   (jsval \<Rightarrow> RenderParams \<Rightarrow> 's \<Rightarrow> ((error + RenderResult) \<times> 's) option) \<Rightarrow>
     node \<Rightarrow> RenderParams \<Rightarrow> 's \<Rightarrow> ((error + RenderResult) \<times> 's) option" where
  "node_render objToString rnd (Text strings interpolations) p s =
     (case text_render objToString strings interpolations p of
        None \<Rightarrow> None
      | Some res \<Rightarrow> Some (res, s))"
| "node_render objToString rnd (Block strings interpolations) p s =
     (case render_all (\<lambda>x. rnd x (p\<lparr>indent := indent p @ indentIncrement p\<rparr>)) interpolations s of
        None \<Rightarrow> None
      | Some (Inl e, s') \<Rightarrow> Some (Inl e, s')
      | Some (Inr rs, s') \<Rightarrow> Some (block_layout strings rs p, s'))"
| "node_render objToString rnd (Inline strings interpolations) p s =
     (case render_all (\<lambda>x. rnd x p) interpolations s of
        None \<Rightarrow> None
      | Some (Inl e, s') \<Rightarrow> Some (Inl e, s')
      | Some (Inr rs, s') \<Rightarrow> Some (inline_layout strings rs p, s'))"
| "node_render objToString rnd (ListN joiner items sort_opt) p s =
     (case render_all (\<lambda>x. rnd x p) items s of
        None \<Rightarrow> None
      | Some (Inl e, s') \<Rightarrow> Some (Inl e, s')
      | Some (Inr rs, s') \<Rightarrow> Some (Inr (list_layout joiner sort_opt rs p), s'))"

section \<open>The default formatter\<close>

text \<open>\<open>objectLike\<close>: the block \<open>{ ... }\<close> around the sorted list of the entries.\<close>

definition objectLike :: "heap \<Rightarrow> (jsval \<times> jsval) list \<Rightarrow> node" where
  "objectLike h keyValuePairs =
     Block [''{ '', '' }'']
       [NodeV (ListN '', ''
          (map (\<lambda>(k, v).
             NodeV (Inline ['''', '': '', '''']
               [NodeV (Text ['''', ''''] [Prim (Str (stringifyKey h k))]), v]))
             keyValuePairs)
          True)]"

text \<open>\<open>Object.entries(value)\<close>: the keys are strings.\<close>

definition entries :: "(string \<times> jsval) list \<Rightarrow> (jsval \<times> jsval) list" where
  "entries props = map (\<lambda>(k, v). (Prim (Str k), v)) props"

text \<open>\<open>defaultFormatter\<close>, the cases of a primitive.\<close>

fun defaultFormatter_prim :: "prim \<Rightarrow> node" where
  "defaultFormatter_prim Undefined = Text [''undefined''] []"
| "defaultFormatter_prim (Bool b) = Text ['''', ''''] [Prim (Str (if b then ''true'' else ''false''))]"
| "defaultFormatter_prim (Symbol d) = Text ['''', ''''] [Prim (Symbol d)]"
| "defaultFormatter_prim (Number n) = Text ['''', ''''] [Prim (Number n)]"
| "defaultFormatter_prim (BigInt n) = Text ['''', ''''] [Prim (BigInt n)]"
| "defaultFormatter_prim (Str s) = Text ['''', ''''] [Prim (Str (stringifyStringLiteral s))]"
| "defaultFormatter_prim Null = Text [''null''] []"

text \<open>\<open>defaultFormatter\<close>, the case \<open>'function'\<close> / \<open>'object'\<close>.\<close>

fun defaultFormatter_obj :: "heap \<Rightarrow> obj \<Rightarrow> node" where
  "defaultFormatter_obj h (Array items) = Block [''['', '']''] [NodeV (ListN '', '' items False)]"
| "defaultFormatter_obj h (SetObj items) = Block [''Set ['', '']''] [NodeV (ListN '', '' items True)]"
| "defaultFormatter_obj h (MapObj kvs) = Inline [''Map '', ''''] [NodeV (objectLike h kvs)]"
| "defaultFormatter_obj h (Plain props) = objectLike h (entries props)"
| "defaultFormatter_obj h (Function src props) = objectLike h (entries props)"

section \<open>The driver\<close>

definition circular :: node where
  "circular = Text [''<circular>''] []"

text \<open>\<open>isStringifiable(value) ? value : formatter(value)\<close> on an object.\<close>

fun resolve :: "heap \<Rightarrow> cell \<Rightarrow> node" where
  "resolve h (Stringifiable nd) = nd"
| "resolve h (Value ob) = defaultFormatter_obj h ob"

text \<open>The options of \<open>stringify\<close>; an indent is a string or a number of spaces.
  The option \<open>formatter\<close> is left at its default, \<open>defaultFormatter\<close>.\<close>

record StringifyOpts =
  optWrapWidth :: "enat option"
  optIndentIncrement :: "(nat + string) option"
  optBaseIndent :: "(nat + string) option"

text \<open>The body of \<open>stringify\<close> around its inner function \<open>render\<close>, which is the
  argument \<open>rnd\<close>: the defaults of the options, a new and empty \<open>alreadyVisited\<close>, the
  call of \<open>render\<close> on the value, and the content of the result.\<close>

definition stringify_with ::
  "(jsval \<Rightarrow> RenderParams \<Rightarrow> addr set \<Rightarrow> ((error + RenderResult) \<times> addr set) option) \<Rightarrow>
     jsval \<Rightarrow> StringifyOpts \<Rightarrow> (error + string) option" where
  "stringify_with rnd v opts =
     (let w = (case optWrapWidth opts of None \<Rightarrow> 120 | Some x \<Rightarrow> x);
          inc =
            (case optIndentIncrement opts of
               Some (Inr s) \<Rightarrow> s
             | Some (Inl n) \<Rightarrow> spaceWithLength n
             | None \<Rightarrow> spaceWithLength 2);
          ind =
            (case optBaseIndent opts of
               Some (Inr s) \<Rightarrow> s
             | Some (Inl n) \<Rightarrow> spaceWithLength n
             | None \<Rightarrow> spaceWithLength 0)
      in (case rnd v \<lparr>wrapWidth = w, indent = ind, indentIncrement = inc\<rparr> {} of
            None \<Rightarrow> None
          | Some (Inl e, visited) \<Rightarrow> Some (Inl e)
          | Some (Inr rendered, visited) \<Rightarrow> Some (Inr (content rendered))))"

text \<open>The method \<open>toString: opts => stringify(result, opts)\<close> of a built-in node, as the
  host calls it to convert the node to a string: with no argument. It is a call of
  \<open>stringify\<close> of its own, with the default options and an ancestry set of its own.\<close>

definition node_toString ::
  "(jsval \<Rightarrow> RenderParams \<Rightarrow> addr set \<Rightarrow> ((error + RenderResult) \<times> addr set) option) \<Rightarrow>
     jsval \<Rightarrow> (error + string) option" where
  "node_toString rnd x =
     stringify_with rnd x \<lparr>optWrapWidth = None, optIndentIncrement = None, optBaseIndent = None\<rparr>"

text \<open>
  The host's conversion of an object to a string, which calls the \<open>toString\<close> method of
  the object: that of a node is \<open>nodeToString\<close>; that of an array is \<open>join(',')\<close>,
  which converts the elements in turn, \<open>undefined\<close> and \<open>null\<close> to the empty string;
  a set, a map and a plain object convert to \<open>[object Set]\<close>, \<open>[object Map]\<close> and
  \<open>[object Object]\<close>, a function to its source text. The methods are those of the
  prototypes (an own property \<open>toString\<close> or \<open>valueOf\<close> would be code of the user's), and
  \<open>join\<close> is the one of the language standard, which converts an array that contains
  itself without end (an engine may cut that conversion short; the model does not).
  The first argument bounds the depth of the nested conversions.
\<close>

primrec object_to_string ::
  "nat \<Rightarrow> (jsval \<Rightarrow> (error + string) option) \<Rightarrow> heap \<Rightarrow> jsval \<Rightarrow> (error + string) option" where
  "object_to_string 0 nodeToString h x = None"
| "object_to_string (Suc k) nodeToString h x =
     (case x of
        Prim y \<Rightarrow> Some (to_string y)
      | NodeV nd \<Rightarrow> nodeToString x
      | Ref a \<Rightarrow>
          (case map_of h a of
             None \<Rightarrow> Some (Inl DanglingReference)
           | Some (Stringifiable nd) \<Rightarrow> nodeToString x
           | Some (Value (Array items)) \<Rightarrow>
               (case convert_all
                       (\<lambda>e. case e of
                              Prim Undefined \<Rightarrow> Some (Inr [])
                            | Prim Null \<Rightarrow> Some (Inr [])
                            | _ \<Rightarrow> object_to_string k nodeToString h e)
                       items of
                  None \<Rightarrow> None
                | Some (Inl e) \<Rightarrow> Some (Inl e)
                | Some (Inr ss) \<Rightarrow> Some (Inr (join '','' ss)))
           | Some (Value (SetObj items)) \<Rightarrow> Some (Inr ''[object Set]'')
           | Some (Value (MapObj kvs)) \<Rightarrow> Some (Inr ''[object Map]'')
           | Some (Value (Plain props)) \<Rightarrow> Some (Inr ''[object Object]'')
           | Some (Value (Function src props)) \<Rightarrow> Some (Inr src)))"

text \<open>
  The function \<open>render\<close> inside \<open>stringify\<close>, with the default formatter. The last
  argument is \<open>alreadyVisited\<close>, returned as the call leaves it; \<open>finally\<close> deletes
  the value on a return and on a throw alike. The first argument bounds the depth of the
  nested calls of \<open>render\<close>: \<open>None\<close> is a recursion deeper than that. A node converts
  an object to a string through the host, which for a node calls \<open>stringify\<close> anew.
\<close>

primrec render ::
  "nat \<Rightarrow> heap \<Rightarrow> jsval \<Rightarrow> RenderParams \<Rightarrow> addr set \<Rightarrow> ((error + RenderResult) \<times> addr set) option" where
  "render 0 h v p alreadyVisited = None"
| "render (Suc n) h v p alreadyVisited =
     (case v of
        Prim x \<Rightarrow>
          node_render (object_to_string n (node_toString (render n h)) h) (render n h)
            (defaultFormatter_prim x) p alreadyVisited
      | NodeV nd \<Rightarrow>
          node_render (object_to_string n (node_toString (render n h)) h) (render n h)
            nd p alreadyVisited
      | Ref a \<Rightarrow>
          (case map_of h a of
             None \<Rightarrow> Some (Inl DanglingReference, alreadyVisited)
           | Some c \<Rightarrow>
               if a \<in> alreadyVisited then
                 node_render (object_to_string n (node_toString (render n h)) h) (render n h)
                   circular p alreadyVisited
               else
                 (case node_render (object_to_string n (node_toString (render n h)) h) (render n h)
                         (resolve h c) p (insert a alreadyVisited) of
                    None \<Rightarrow> None
                  | Some (res, visited) \<Rightarrow> Some (res, visited - {a}))))"

text \<open>\<open>stringify\<close>, with the bound on the depth of its inner \<open>render\<close>.\<close>

definition stringify :: "nat \<Rightarrow> heap \<Rightarrow> jsval \<Rightarrow> StringifyOpts \<Rightarrow> (error + string) option" where
  "stringify fuel h v opts = stringify_with (render fuel h) v opts"

text \<open>The host's conversion of an object as the nodes of \<open>render n h\<close> meet it.\<close>

abbreviation host_to_string :: "nat \<Rightarrow> heap \<Rightarrow> jsval \<Rightarrow> (error + string) option" where
  "host_to_string n h \<equiv> object_to_string n (node_toString (render n h)) h"

section \<open>Graphs whose Text nodes interpolate primitives\<close>

text \<open>The values in which every Text node interpolates primitives only, as the Text
  nodes of the default formatter do; a reference is judged by the heap it points into.\<close>

fun is_prim :: "jsval \<Rightarrow> bool" where
  "is_prim (Prim x) = True"
| "is_prim (Ref a) = False"
| "is_prim (NodeV nd) = False"

fun text_of_prims :: "jsval \<Rightarrow> bool"
and node_text_of_prims :: "node \<Rightarrow> bool" where
  "text_of_prims (Prim x) = True"
| "text_of_prims (Ref a) = True"
| "text_of_prims (NodeV nd) = node_text_of_prims nd"
| "node_text_of_prims (Text strings interpolations) = (\<forall>x \<in> set interpolations. is_prim x)"
| "node_text_of_prims (Block strings interpolations) = (\<forall>x \<in> set interpolations. text_of_prims x)"
| "node_text_of_prims (Inline strings interpolations) = (\<forall>x \<in> set interpolations. text_of_prims x)"
| "node_text_of_prims (ListN joiner items sort_opt) = (\<forall>x \<in> set items. text_of_prims x)"

text \<open>The values an object hands to the default formatter to be rendered (the keys of a
  map are not rendered: \<open>stringifyKey\<close> names them).\<close>

fun rendered_values :: "obj \<Rightarrow> jsval list" where
  "rendered_values (Array items) = items"
| "rendered_values (SetObj items) = items"
| "rendered_values (MapObj kvs) = map snd kvs"
| "rendered_values (Plain props) = map snd props"
| "rendered_values (Function src props) = map snd props"

fun cell_text_of_prims :: "cell \<Rightarrow> bool" where
  "cell_text_of_prims (Stringifiable nd) = node_text_of_prims nd"
| "cell_text_of_prims (Value ob) = (\<forall>x \<in> set (rendered_values ob). text_of_prims x)"

definition heap_text_of_prims :: "heap \<Rightarrow> bool" where
  "heap_text_of_prims h = (\<forall>(a, c) \<in> set h. cell_text_of_prims c)"

declare replace_indent.simps [simp del]

section \<open>Facts about the string functions\<close>

lemma interpolate_loop_Inr:
  "interpolate_loop s strs ips = Inr t \<Longrightarrow>
     length strs = length ips \<and>
     length t = length s + sum_list (map length strs) + sum_list (map length ips) \<and>
     set t = set s \<union> \<Union> (set ` set strs) \<union> \<Union> (set ` set ips)"
  by (induction s strs ips rule: interpolate_loop.induct) auto

lemma interpolate_Inr:
  "interpolate strs ips = Inr t \<Longrightarrow>
     length strs = length ips + 1 \<and>
     length t = sum_list (map length strs) + sum_list (map length ips) \<and>
     set t = \<Union> (set ` set strs) \<union> \<Union> (set ` set ips)"
  by (cases strs) (auto dest!: interpolate_loop_Inr)

lemma length_join:
  "length (join sep xs) = sum_list (map length xs) + length sep * (length xs - 1)"
  by (induction sep xs rule: join.induct) auto

lemma set_join_subset: "set (join sep xs) \<subseteq> set sep \<union> \<Union> (set ` set xs)"
  by (induction sep xs rule: join.induct) auto

lemma split_lines_from_length: "Suc 0 \<le> length (split_lines_from cur s)"
  by (induction cur s rule: split_lines_from.induct) auto

lemma split_lines_from_LF:
  "LF \<in> set s \<Longrightarrow> 2 \<le> length (split_lines_from cur s)"
proof (induction cur s rule: split_lines_from.induct)
  case (3 cur c d ds)
  then show ?case
    using split_lines_from_length[of "[]" "d # ds"] split_lines_from_length[of "[]" ds]
    by (auto split: if_splits)
qed auto










section \<open>Facts about rendering\<close>

lemma split_lines_from_no_LF:
  "LF \<notin> set s \<Longrightarrow> split_lines_from cur s = [cur @ s]"
  by (induction cur s rule: split_lines_from.induct) auto

lemma split_lines_single: "split_lines s = [l] \<Longrightarrow> LF \<notin> set s"
  using split_lines_from_LF[of s "[]"] by (auto simp: split_lines_def)

lemma text_layout_single_line:
  "text_layout strings ips p = Inr r \<Longrightarrow> \<not> isMultiline r \<Longrightarrow> LF \<notin> set (content r)"
  by (auto simp: text_layout_def Let_def split: sum.splits list.splits if_splits
           dest: split_lines_single)

lemma render_all_results:
  "render_all f xs s = Some (Inr rs, s') \<Longrightarrow>
     length rs = length xs \<and> (\<forall>r \<in> set rs. \<exists>x \<in> set xs. \<exists>t t'. f x t = Some (Inr r, t'))"
proof (induction xs arbitrary: s rs)
  case Nil
  then show ?case by simp
next
  case (Cons x xs)
  then show ?case
    by (auto split: option.splits sum.splits prod.splits) blast+
qed

lemma node_render_single_line:
  assumes cb: "\<And>x q t r' t'. rnd x q t = Some (Inr r', t') \<Longrightarrow> \<not> isMultiline r' \<Longrightarrow> LF \<notin> set (content r')"
    and r: "node_render str rnd nd p s = Some (Inr r, s')"
    and single: "\<not> isMultiline r"
  shows "LF \<notin> set (content r)"
proof (cases nd)
  case (Text strings ips)
  with r single show ?thesis
    by (auto simp: text_render_def split: option.splits sum.splits dest: text_layout_single_line)
next
  case (Block strings xs)
  with r obtain rs where
    rs: "render_all (\<lambda>x. rnd x (p\<lparr>indent := indent p @ indentIncrement p\<rparr>)) xs s = Some (Inr rs, s')"
    and lay: "block_layout strings rs p = Inr r"
    by (auto split: option.splits sum.splits prod.splits)
  from render_all_results[OF rs] cb
  have kids: "\<forall>c \<in> set rs. \<not> isMultiline c \<longrightarrow> LF \<notin> set (content c)" by blast
  from lay single kids show ?thesis
    by (auto simp: block_layout_def Let_def list_ex_iff includes_nl_def
             split: if_splits sum.splits dest!: interpolate_Inr)
next
  case (Inline strings xs)
  with r obtain rs where
    rs: "render_all (\<lambda>x. rnd x p) xs s = Some (Inr rs, s')"
    and lay: "inline_layout strings rs p = Inr r"
    by (auto split: option.splits sum.splits prod.splits)
  from render_all_results[OF rs] cb
  have kids: "\<forall>c \<in> set rs. \<not> isMultiline c \<longrightarrow> LF \<notin> set (content c)" by blast
  from lay single kids show ?thesis
    by (auto simp: inline_layout_def Let_def list_ex_iff includes_nl_def
             split: if_splits sum.splits dest!: interpolate_Inr)
next
  case (ListN joiner xs srt)
  with r obtain rs where
    rs: "render_all (\<lambda>x. rnd x p) xs s = Some (Inr rs, s')"
    and lay: "r = list_layout joiner srt rs p"
    by (auto split: option.splits sum.splits prod.splits)
  from render_all_results[OF rs] cb
  have kids: "\<forall>c \<in> set rs. \<not> isMultiline c \<longrightarrow> LF \<notin> set (content c)" by blast
  have set_sorted: "set (sort_rendered srt rs) = set rs" by (simp add: sort_rendered_def)
  from lay single have nm: "\<forall>c \<in> set rs. \<not> isMultiline c" and nj: "LF \<notin> set joiner"
    and c: "content r = join joiner (map content (sort_rendered srt rs))"
    by (auto simp: list_layout_def Let_def list_ex_iff includes_nl_def set_sorted split: if_splits)
  show ?thesis
    using set_join_subset[of joiner "map content (sort_rendered srt rs)"] nm nj kids
    by (auto simp: c set_sorted)
qed

lemma render_single_line:
  "render n h v p V = Some (Inr r, V') \<Longrightarrow> \<not> isMultiline r \<Longrightarrow> LF \<notin> set (content r)"
proof (induction n arbitrary: v p V r V')
  case 0
  then show ?case by simp
next
  case (Suc n)
  have cb: "\<And>x q t r' t'. render n h x q t = Some (Inr r', t') \<Longrightarrow> \<not> isMultiline r' \<Longrightarrow> LF \<notin> set (content r')"
    using Suc.IH by blast
  from Suc.prems obtain nd W W' where
    "node_render (host_to_string n h) (render n h) nd p W = Some (Inr r, W')"
    by (auto split: jsval.splits option.splits if_splits prod.splits)
  from node_render_single_line[OF cb this Suc.prems(2)] show ?case .
qed

lemma node_render_width:
  assumes r: "node_render str rnd nd p s = Some (Inr r, s')"
    and nt: "\<forall>strings ips. nd \<noteq> Text strings ips"
    and single: "\<not> isMultiline r"
  shows "enat (length (indent p) + length (content r)) \<le> wrapWidth p"
proof (cases nd)
  case (Text strings ips)
  with nt show ?thesis by simp
next
  case (Block strings xs)
  with r obtain rs where lay: "block_layout strings rs p = Inr r"
    by (auto split: option.splits sum.splits prod.splits)
  from lay single show ?thesis
    by (auto simp: block_layout_def Let_def singleLineLength_def comp_def
             split: if_splits sum.splits dest!: interpolate_Inr)
next
  case (Inline strings xs)
  with r obtain rs where lay: "inline_layout strings rs p = Inr r"
    by (auto split: option.splits sum.splits prod.splits)
  from lay single show ?thesis
    by (auto simp: inline_layout_def Let_def singleLineLength_def comp_def
             split: if_splits sum.splits dest!: interpolate_Inr)
next
  case (ListN joiner xs srt)
  with r obtain rs where lay: "r = list_layout joiner srt rs p"
    by (auto split: option.splits sum.splits prod.splits)
  from lay single show ?thesis
    by (auto simp: list_layout_def Let_def length_join comp_def split: if_splits)
qed

section \<open>The ancestry set and the depth of the recursion\<close>

lemma render_all_restores:
  assumes "\<And>x t res t'. x \<in> set xs \<Longrightarrow> f x t = Some (res, t') \<Longrightarrow> t' = t"
    and "render_all f xs s = Some (res, s')"
  shows "s' = s"
  using assms
proof (induction xs arbitrary: s res)
  case Nil
  then show ?case by simp
next
  case (Cons x xs)
  show ?case
  proof (cases "f x s")
    case None
    with Cons.prems(2) show ?thesis by simp
  next
    case (Some y)
    obtain r1 s1 where y: "y = (r1, s1)" by (cases y)
    from Cons.prems(1)[of x s r1 s1] Some y have s1: "s1 = s" by simp
    show ?thesis
    proof (cases r1)
      case (Inl e)
      with Some y s1 Cons.prems(2) show ?thesis by simp
    next
      case (Inr r)
      with Some y s1 Cons.prems(2) obtain res2 where "render_all f xs s = Some (res2, s')"
        by (auto split: option.splits sum.splits prod.splits)
      from Cons.IH[OF _ this] Cons.prems(1) show ?thesis by auto
    qed
  qed
qed

lemma node_render_restores:
  assumes "\<And>x q t res t'. rnd x q t = Some (res, t') \<Longrightarrow> t' = t"
    and "node_render str rnd nd p s = Some (res, s')"
  shows "s' = s"
proof (cases nd)
  case (Text strings ips)
  with assms(2) show ?thesis by (auto split: option.splits)
next
  case (Block strings xs)
  with assms(2) obtain res2 where
    "render_all (\<lambda>x. rnd x (p\<lparr>indent := indent p @ indentIncrement p\<rparr>)) xs s = Some (res2, s')"
    by (auto split: option.splits sum.splits prod.splits)
  from render_all_restores[OF _ this] assms(1) show ?thesis by blast
next
  case (Inline strings xs)
  with assms(2) obtain res2 where "render_all (\<lambda>x. rnd x p) xs s = Some (res2, s')"
    by (auto split: option.splits sum.splits prod.splits)
  from render_all_restores[OF _ this] assms(1) show ?thesis by blast
next
  case (ListN joiner xs srt)
  with assms(2) obtain res2 where "render_all (\<lambda>x. rnd x p) xs s = Some (res2, s')"
    by (auto split: option.splits sum.splits prod.splits)
  from render_all_restores[OF _ this] assms(1) show ?thesis by blast
qed

lemma render_restores:
  "render n h v p V = Some (res, V') \<Longrightarrow> V' = V"
proof (induction n arbitrary: v p V res V')
  case 0
  then show ?case by simp
next
  case (Suc n)
  have cb: "\<And>x q t res t'. render n h x q t = Some (res, t') \<Longrightarrow> t' = t"
    using Suc.IH by blast
  show ?case
  proof (cases v)
    case (Prim x)
    with Suc.prems node_render_restores[OF cb] show ?thesis by auto
  next
    case (NodeV nd)
    with Suc.prems node_render_restores[OF cb] show ?thesis by auto
  next
    case (Ref a)
    show ?thesis
    proof (cases "map_of h a")
      case None
      with Ref Suc.prems show ?thesis by simp
    next
      case (Some c)
      show ?thesis
      proof (cases "a \<in> V")
        case True
        with Ref Some Suc.prems node_render_restores[OF cb] show ?thesis by auto
      next
        case False
        with Ref Some Suc.prems obtain W where
          w: "node_render (host_to_string n h) (render n h) (resolve h c) p (insert a V) = Some (res, W)" and
          v': "V' = W - {a}"
          by (auto split: option.splits prod.splits)
        from node_render_restores[OF cb w] have "W = insert a V" .
        with v' False show ?thesis by auto
      qed
    qed
  qed
qed

lemma render_all_mono:
  assumes "\<And>x t y. x \<in> set xs \<Longrightarrow> f x t = Some y \<Longrightarrow> g x t = Some y"
    and "render_all f xs s = Some y"
  shows "render_all g xs s = Some y"
  using assms
proof (induction xs arbitrary: s y)
  case Nil
  then show ?case by simp
next
  case (Cons x xs)
  from Cons.prems(2) obtain r1 s1 where fx: "f x s = Some (r1, s1)"
    by (auto split: option.splits)
  then have gx: "g x s = Some (r1, s1)" using Cons.prems(1) by simp
  show ?case
  proof (cases r1)
    case (Inl e)
    with fx gx Cons.prems(2) show ?thesis by simp
  next
    case (Inr r)
    with fx Cons.prems(2) obtain y2 where y2: "render_all f xs s1 = Some y2"
      by (auto split: option.splits)
    have "render_all g xs s1 = Some y2"
      using Cons.IH[OF _ y2] Cons.prems(1) by simp
    with y2 fx gx Inr Cons.prems(2) show ?thesis by simp
  qed
qed

lemma convert_all_mono:
  assumes "\<And>x y. x \<in> set xs \<Longrightarrow> f x = Some y \<Longrightarrow> g x = Some y"
    and "convert_all f xs = Some y"
  shows "convert_all g xs = Some y"
  using assms
proof (induction xs arbitrary: y)
  case Nil
  then show ?case by simp
next
  case (Cons x xs)
  from Cons.prems(2) obtain r1 where fx: "f x = Some r1"
    by (auto split: option.splits)
  then have gx: "g x = Some r1" using Cons.prems(1) by simp
  show ?case
  proof (cases r1)
    case (Inl e)
    with fx gx Cons.prems(2) show ?thesis by simp
  next
    case (Inr r)
    with fx Cons.prems(2) obtain y2 where y2: "convert_all f xs = Some y2"
      by (auto split: option.splits)
    have "convert_all g xs = Some y2"
      using Cons.IH[OF _ y2] Cons.prems(1) by simp
    with y2 fx gx Inr Cons.prems(2) show ?thesis by simp
  qed
qed

lemma to_strings_mono:
  assumes "\<And>x y. str x = Some y \<Longrightarrow> str' x = Some y"
    and "to_strings str xs = Some y"
  shows "to_strings str' xs = Some y"
proof -
  have s: "string_of str' x = Some z" if "string_of str x = Some z" for x z
    using that assms(1) by (cases x) (simp_all add: string_of_def)
  show ?thesis
    unfolding to_strings_def
    by (rule convert_all_mono[OF _ assms(2)[unfolded to_strings_def]]) (rule s)
qed

lemma node_render_mono:
  assumes "\<And>x q t y. rnd x q t = Some y \<Longrightarrow> rnd' x q t = Some y"
    and "\<And>x y. str x = Some y \<Longrightarrow> str' x = Some y"
    and "node_render str rnd nd p s = Some y"
  shows "node_render str' rnd' nd p s = Some y"
proof (cases nd)
  case (Text strings ips)
  with assms(3) obtain z where z: "to_strings str ips = Some z"
    by (auto simp: text_render_def split: option.splits)
  from to_strings_mono[OF assms(2) z] have "to_strings str' ips = Some z" .
  with z Text assms(3) show ?thesis by (simp add: text_render_def)
next
  case (Block strings xs)
  with assms(3) obtain y2 where
    y2: "render_all (\<lambda>x. rnd x (p\<lparr>indent := indent p @ indentIncrement p\<rparr>)) xs s = Some y2"
    by (auto split: option.splits)
  from render_all_mono[OF _ y2, of "\<lambda>x. rnd' x (p\<lparr>indent := indent p @ indentIncrement p\<rparr>)"] assms(1)
  have "render_all (\<lambda>x. rnd' x (p\<lparr>indent := indent p @ indentIncrement p\<rparr>)) xs s = Some y2" by simp
  with y2 Block assms(3) show ?thesis by simp
next
  case (Inline strings xs)
  with assms(3) obtain y2 where y2: "render_all (\<lambda>x. rnd x p) xs s = Some y2"
    by (auto split: option.splits)
  from render_all_mono[OF _ y2, of "\<lambda>x. rnd' x p"] assms(1)
  have "render_all (\<lambda>x. rnd' x p) xs s = Some y2" by simp
  with y2 Inline assms(3) show ?thesis by simp
next
  case (ListN joiner xs srt)
  with assms(3) obtain y2 where y2: "render_all (\<lambda>x. rnd x p) xs s = Some y2"
    by (auto split: option.splits)
  from render_all_mono[OF _ y2, of "\<lambda>x. rnd' x p"] assms(1)
  have "render_all (\<lambda>x. rnd' x p) xs s = Some y2" by simp
  with y2 ListN assms(3) show ?thesis by simp
qed

lemma stringify_with_mono:
  assumes "\<And>q t y. rnd v q t = Some y \<Longrightarrow> rnd' v q t = Some y"
    and "stringify_with rnd v opts = Some y"
  shows "stringify_with rnd' v opts = Some y"
proof -
  let ?p = "\<lparr>wrapWidth = (case optWrapWidth opts of None \<Rightarrow> 120 | Some x \<Rightarrow> x),
             indent = (case optBaseIndent opts of
               Some (Inr s) \<Rightarrow> s
             | Some (Inl n) \<Rightarrow> spaceWithLength n
             | None \<Rightarrow> spaceWithLength 0),
             indentIncrement = (case optIndentIncrement opts of
               Some (Inr s) \<Rightarrow> s
             | Some (Inl n) \<Rightarrow> spaceWithLength n
             | None \<Rightarrow> spaceWithLength 2)\<rparr>"
  from assms(2) obtain z where z: "rnd v ?p {} = Some z"
    by (auto simp: stringify_with_def Let_def split: option.splits)
  from assms(1)[OF z] z assms(2) show ?thesis
    by (simp add: stringify_with_def Let_def)
qed

lemma object_to_string_mono:
  assumes ts: "\<And>x y. ts x = Some y \<Longrightarrow> ts' x = Some y"
  shows "object_to_string k ts h x = Some y \<Longrightarrow> object_to_string (Suc k) ts' h x = Some y"
proof (induction k arbitrary: x y)
  case 0
  then show ?case by simp
next
  case (Suc k)
  let ?el = "\<lambda>j t e. case e of
                Prim Undefined \<Rightarrow> Some (Inr [])
              | Prim Null \<Rightarrow> Some (Inr [])
              | _ \<Rightarrow> object_to_string j t h e"
  have el: "?el (Suc k) ts' e = Some z" if "?el k ts e = Some z" for e z
    using that Suc.IH by (auto simp del: object_to_string.simps split: jsval.splits prim.splits)
  have arr: "convert_all (?el (Suc k) ts') items = Some z"
    if "convert_all (?el k ts) items = Some z" for items z
    by (rule convert_all_mono[OF _ that]) (rule el)
  show ?case
  proof (cases x)
    case (Prim y')
    with Suc.prems show ?thesis by simp
  next
    case (NodeV nd)
    with Suc.prems ts show ?thesis by simp
  next
    case (Ref a)
    show ?thesis
    proof (cases "map_of h a")
      case None
      with Ref Suc.prems show ?thesis by simp
    next
      case (Some c)
      show ?thesis
      proof (cases c)
        case (Stringifiable nd)
        with Ref Some Suc.prems ts show ?thesis by simp
      next
        case (Value ob)
        show ?thesis
        proof (cases ob)
          case (Array items)
          have lhs: "object_to_string (Suc k) ts h x =
              (case convert_all (?el k ts) items of
                 None \<Rightarrow> None
               | Some (Inl e) \<Rightarrow> Some (Inl e)
               | Some (Inr ss) \<Rightarrow> Some (Inr (join '','' ss)))"
            using Ref Some Value Array by simp
          have rhs: "object_to_string (Suc (Suc k)) ts' h x =
              (case convert_all (?el (Suc k) ts') items of
                 None \<Rightarrow> None
               | Some (Inl e) \<Rightarrow> Some (Inl e)
               | Some (Inr ss) \<Rightarrow> Some (Inr (join '','' ss)))"
            using Ref Some Value Array
            by (simp del: object_to_string.simps add: object_to_string.simps(2)[of "Suc k"])
          from Suc.prems lhs obtain z where z: "convert_all (?el k ts) items = Some z"
            by (auto simp del: object_to_string.simps split: option.splits)
          from arr[OF z] z Suc.prems show ?thesis
            unfolding lhs rhs by (simp del: object_to_string.simps)
        qed (use Ref Some Value Suc.prems in
              \<open>simp_all del: object_to_string.simps
                 add: object_to_string.simps(2)[of "Suc k"] object_to_string.simps(2)[of k]\<close>)
      qed
    qed
  qed
qed

lemma render_Suc_mono:
  "render n h v p V = Some y \<Longrightarrow> render (Suc n) h v p V = Some y"
proof (induction n arbitrary: v p V y)
  case 0
  then show ?case by simp
next
  case (Suc n)
  have cb: "\<And>x q t y. render n h x q t = Some y \<Longrightarrow> render (Suc n) h x q t = Some y"
    using Suc.IH by blast
  have ts: "node_toString (render (Suc n) h) x = Some z"
    if "node_toString (render n h) x = Some z" for x z
    unfolding node_toString_def
    by (rule stringify_with_mono[OF _ that[unfolded node_toString_def]]) (rule cb)
  have str: "host_to_string (Suc n) h x = Some z" if "host_to_string n h x = Some z" for x z
    by (rule object_to_string_mono[OF _ that]) (rule ts)
  have m: "node_render (host_to_string (Suc n) h) (render (Suc n) h) nd q s = Some z"
    if "node_render (host_to_string n h) (render n h) nd q s = Some z" for nd q s z
    using cb str that by (rule node_render_mono)
  show ?case
  proof (cases v)
    case (Prim x)
    with Suc.prems m show ?thesis by simp
  next
    case (NodeV nd)
    with Suc.prems m show ?thesis by simp
  next
    case (Ref a)
    show ?thesis
    proof (cases "map_of h a")
      case None
      with Ref Suc.prems show ?thesis by simp
    next
      case (Some c)
      show ?thesis
      proof (cases "a \<in> V")
        case True
        with Ref Some Suc.prems m show ?thesis by simp
      next
        case False
        with Ref Some Suc.prems obtain y2 where
          y2: "node_render (host_to_string n h) (render n h) (resolve h c) p (insert a V) = Some y2"
          by (auto split: option.splits)
        from m[OF y2] y2 Ref Some False Suc.prems show ?thesis by simp
      qed
    qed
  qed
qed

lemma render_add_mono:
  "render n h v p V = Some y \<Longrightarrow> render (n + k) h v p V = Some y"
proof (induction k)
  case 0
  then show ?case by simp
next
  case (Suc k)
  then have "render (n + k) h v p V = Some y" by blast
  then have "render (Suc (n + k)) h v p V = Some y" by (rule render_Suc_mono)
  then show ?case by (simp del: render.simps)
qed

lemma render_mono:
  "n \<le> m \<Longrightarrow> render n h v p V = Some y \<Longrightarrow> render m h v p V = Some y"
  using render_add_mono[of n h v p V y "m - n"] by (simp del: render.simps)

lemma render_all_terminates:
  assumes "\<And>x. x \<in> set xs \<Longrightarrow> \<exists>N. \<forall>n\<ge>N. \<forall>p. \<exists>y. render n h x p V = Some y"
  shows "\<exists>N. \<forall>n\<ge>N. \<forall>p. \<exists>y. render_all (\<lambda>x. render n h x p) xs V = Some y"
  using assms
proof (induction xs)
  case Nil
  then show ?case by simp
next
  case (Cons x xs)
  from Cons.prems[of x] obtain N1 where
    n1': "\<forall>n\<ge>N1. \<forall>p. \<exists>y. render n h x p V = Some y" by auto
  from Cons.IH Cons.prems obtain N2 where
    n2': "\<forall>n\<ge>N2. \<forall>p. \<exists>y. render_all (\<lambda>x. render n h x p) xs V = Some y" by auto
  note n1 = n1'[rule_format] and n2 = n2'[rule_format]
  have "\<exists>y. render_all (\<lambda>x. render n h x p) (x # xs) V = Some y" if "max N1 N2 \<le> n" for n p
  proof -
    from that n1[of n p] obtain r1 s1 where fx: "render n h x p V = Some (r1, s1)" by auto
    from render_restores[OF fx] have s1: "s1 = V" .
    from that n2[of n p] obtain y2 where y2: "render_all (\<lambda>x. render n h x p) xs V = Some y2" by auto
    from fx s1 y2 show ?thesis
      by (cases r1; cases y2; cases "fst y2") auto
  qed
  then show ?case by blast
qed

lemma convert_all_total:
  "(\<And>x. x \<in> set xs \<Longrightarrow> \<exists>y. f x = Some y) \<Longrightarrow> \<exists>y. convert_all f xs = Some y"
proof (induction xs)
  case Nil
  then show ?case by simp
next
  case (Cons x xs)
  from Cons.prems[of x] obtain r1 where fx: "f x = Some r1" by auto
  from Cons.IH Cons.prems obtain y2 where y2: "convert_all f xs = Some y2" by auto
  from fx y2 show ?case by (cases r1; cases y2) auto
qed

lemma text_of_prims_renders:
  assumes "node_text_of_prims (Text strings ips)"
  shows "\<exists>y. node_render str rnd (Text strings ips) p s = Some y"
proof -
  have "\<exists>y. string_of str x = Some y" if "x \<in> set ips" for x
  proof -
    from that assms have "is_prim x" by simp
    then show ?thesis by (cases x) (simp_all add: string_of_def)
  qed
  from convert_all_total[of ips "string_of str", OF this]
  obtain y where "to_strings str ips = Some y" by (auto simp: to_strings_def)
  then show ?thesis by (cases y) (simp_all add: text_render_def)
qed

lemma defaultFormatter_prim_Text:
  "\<exists>strings ips. defaultFormatter_prim x = Text strings ips \<and> node_text_of_prims (Text strings ips)"
  by (cases x) auto

lemma objectLike_of_prims:
  "\<forall>v \<in> set (map snd kvs). text_of_prims v \<Longrightarrow> node_text_of_prims (objectLike h kvs)"
  by (auto simp: objectLike_def)

lemma snd_entries: "map snd (entries props) = map snd props"
  by (simp add: entries_def comp_def case_prod_unfold)

lemma resolve_of_prims:
  assumes "heap_text_of_prims h" and "map_of h a = Some c"
  shows "node_text_of_prims (resolve h c)"
proof -
  from assms(2) have "(a, c) \<in> set h" by (rule map_of_SomeD)
  with assms(1) have c: "cell_text_of_prims c" by (auto simp: heap_text_of_prims_def)
  show ?thesis
  proof (cases c)
    case (Stringifiable nd)
    with c show ?thesis by simp
  next
    case (Value ob)
    with c show ?thesis
      by (cases ob) (simp_all add: objectLike_of_prims snd_entries)
  qed
qed

lemma terminates_aux:
  assumes hp: "heap_text_of_prims h"
  shows
  "(text_of_prims v \<longrightarrow> (\<exists>N. \<forall>n\<ge>N. \<forall>p. \<exists>y. render n h v p V = Some y)) \<and>
   (node_text_of_prims nd \<longrightarrow>
      (\<exists>N. \<forall>n\<ge>N. \<forall>p. \<exists>y. node_render (host_to_string n h) (render n h) nd p V = Some y))"
proof (induction "card (fst ` set h - V)" arbitrary: V v nd rule: less_induct)
  case less
  let ?R = "\<lambda>v. \<exists>N. \<forall>n\<ge>N. \<forall>p. \<exists>y. render n h v p V = Some y"
  let ?RN = "\<lambda>nd. \<exists>N. \<forall>n\<ge>N. \<forall>p. \<exists>y.
               node_render (host_to_string n h) (render n h) nd p V = Some y"
  let ?T = "\<lambda>v. text_of_prims v \<longrightarrow> ?R v"
  let ?TN = "\<lambda>nd. node_text_of_prims nd \<longrightarrow> ?RN nd"
  have kids: "?RN (Block strings xs) \<and> ?RN (Inline strings xs) \<and> ?RN (ListN joiner xs srt)"
    if "\<And>x. x \<in> set xs \<Longrightarrow> ?R x" for strings joiner srt xs
  proof -
    from render_all_terminates[of xs h V] that obtain N where
      n': "\<forall>n\<ge>N. \<forall>p. \<exists>y. render_all (\<lambda>x. render n h x p) xs V = Some y" by blast
    have n: "\<exists>y. render_all (\<lambda>x. render n h x p) xs V = Some y" if "N \<le> n" for n p
      using n' that by blast
    have "\<exists>y. node_render (host_to_string n h) (render n h) (Block strings xs) p V = Some y"
      if "N \<le> n" for n p
      using n[OF that, of "p\<lparr>indent := indent p @ indentIncrement p\<rparr>"]
      by (auto split: option.splits sum.splits prod.splits)
    moreover have "\<exists>y. node_render (host_to_string n h) (render n h) (Inline strings xs) p V = Some y"
      if "N \<le> n" for n p
      using n[OF that, of p] by (auto split: option.splits sum.splits prod.splits)
    moreover have "\<exists>y. node_render (host_to_string n h) (render n h) (ListN joiner xs srt) p V = Some y"
      if "N \<le> n" for n p
      using n[OF that, of p] by (auto split: option.splits sum.splits prod.splits)
    ultimately show ?thesis by blast
  qed
  have ref: "?R (Ref a)" for a
  proof (cases "map_of h a")
    case None
    then have "\<exists>y. render n h (Ref a) p V = Some y" if "1 \<le> n" for n p
      using that by (cases n) auto
    then show ?thesis by blast
  next
    case (Some c)
    show ?thesis
    proof (cases "a \<in> V")
      case True
      have "\<exists>y. node_render (host_to_string m h) (render m h) circular p V = Some y" for m p
        unfolding circular_def by (rule text_of_prims_renders) simp
      with Some True have "\<exists>y. render n h (Ref a) p V = Some y" if "1 \<le> n" for n p
        using that by (cases n) auto
      then show ?thesis by blast
    next
      case False
      from Some have "(a, c) \<in> set h" by (rule map_of_SomeD)
      then have "a \<in> fst ` set h" by force
      with False have "a \<in> fst ` set h - V" by simp
      then have "card (fst ` set h - V - {a}) < card (fst ` set h - V)"
        by (intro card_Diff1_less) auto
      moreover have "fst ` set h - insert a V = fst ` set h - V - {a}" by auto
      ultimately have "card (fst ` set h - insert a V) < card (fst ` set h - V)" by simp
      from less[OF this, of undefined "resolve h c"] resolve_of_prims[OF hp Some] obtain N where
        n': "\<forall>n\<ge>N. \<forall>p. \<exists>y.
               node_render (host_to_string n h) (render n h) (resolve h c) p (insert a V) = Some y"
        by blast
      have n: "\<exists>y. node_render (host_to_string n h) (render n h) (resolve h c) p (insert a V) = Some y"
        if "N \<le> n" for n p
        using n' that by blast
      have "\<exists>y. render n h (Ref a) p V = Some y" if "Suc N \<le> n" for n p
      proof -
        from that obtain m where m: "n = Suc m" "N \<le> m" by (cases n) auto
        from n[OF m(2), of p] Some False m(1) show ?thesis
          by (auto split: option.splits prod.splits)
      qed
      then show ?thesis by blast
    qed
  qed
  have "?T v \<and> ?TN nd"
  proof (rule jsval_node.induct[where ?P1.0 = "?T" and ?P2.0 = "?TN"])
    fix x
    obtain strings ips where
      t: "defaultFormatter_prim x = Text strings ips" "node_text_of_prims (Text strings ips)"
      using defaultFormatter_prim_Text by blast
    have "\<exists>y. node_render (host_to_string m h) (render m h) (defaultFormatter_prim x) p V = Some y"
      for m p
      unfolding t(1) using t(2) by (rule text_of_prims_renders)
    then have "\<exists>y. render n h (Prim x) p V = Some y" if "1 \<le> n" for n p
      using that by (cases n) auto
    then show "?T (Prim x)" by blast
  next
    fix a
    show "?T (Ref a)" using ref by blast
  next
    fix nd
    assume tn: "?TN nd"
    show "?T (NodeV nd)"
    proof
      assume "text_of_prims (NodeV nd)"
      with tn obtain N where
        n': "\<forall>n\<ge>N. \<forall>p. \<exists>y. node_render (host_to_string n h) (render n h) nd p V = Some y"
        by auto
      have n: "\<exists>y. node_render (host_to_string n h) (render n h) nd p V = Some y" if "N \<le> n" for n p
        using n' that by blast
      have "\<exists>y. render n h (NodeV nd) p V = Some y" if "Suc N \<le> n" for n p
      proof -
        from that obtain m where m: "n = Suc m" "N \<le> m" by (cases n) auto
        from n[OF m(2), of p] m(1) show ?thesis by auto
      qed
      then show "?R (NodeV nd)" by blast
    qed
  next
    fix strings ips
    assume "\<And>x. x \<in> set ips \<Longrightarrow> ?T x"
    show "?TN (Text strings ips)"
    proof
      assume tp: "node_text_of_prims (Text strings ips)"
      have "\<exists>y. node_render (host_to_string n h) (render n h) (Text strings ips) p V = Some y"
        for n p
        using tp by (rule text_of_prims_renders)
      then show "?RN (Text strings ips)" by blast
    qed
  next
    fix strings xs
    assume ih: "\<And>x. x \<in> set xs \<Longrightarrow> ?T x"
    show "?TN (Block strings xs)"
    proof
      assume "node_text_of_prims (Block strings xs)"
      with ih have "\<And>x. x \<in> set xs \<Longrightarrow> ?R x" by simp
      from kids[OF this] show "?RN (Block strings xs)" by blast
    qed
  next
    fix strings xs
    assume ih: "\<And>x. x \<in> set xs \<Longrightarrow> ?T x"
    show "?TN (Inline strings xs)"
    proof
      assume "node_text_of_prims (Inline strings xs)"
      with ih have "\<And>x. x \<in> set xs \<Longrightarrow> ?R x" by simp
      from kids[OF this] show "?RN (Inline strings xs)" by blast
    qed
  next
    fix joiner xs srt
    assume ih: "\<And>x. x \<in> set xs \<Longrightarrow> ?T x"
    show "?TN (ListN joiner xs srt)"
    proof
      assume "node_text_of_prims (ListN joiner xs srt)"
      with ih have "\<And>x. x \<in> set xs \<Longrightarrow> ?R x" by simp
      from kids[OF this] show "?RN (ListN joiner xs srt)" by blast
    qed
  qed
  then show ?case .
qed

lemma render_terminates:
  "heap_text_of_prims h \<Longrightarrow> text_of_prims v \<Longrightarrow>
     \<exists>N. \<forall>n\<ge>N. \<forall>p. \<exists>y. render n h v p V = Some y"
  using terminates_aux[of h v V] by blast

lemma render_limit:
  assumes "heap_text_of_prims h" and "text_of_prims v"
  shows "\<exists>N y. \<forall>n\<ge>N. render n h v p V = Some y"
proof -
  from render_terminates[OF assms, of V] obtain N where
    n': "\<forall>n\<ge>N. \<forall>p. \<exists>y. render n h v p V = Some y" by blast
  have n: "\<exists>y. render n h v p V = Some y" if "N \<le> n" for n
    using n' that by blast
  from n[of N] obtain y where y: "render N h v p V = Some y" by auto
  have "render n h v p V = Some y" if "N \<le> n" for n
    using render_mono[OF that y] .
  then show ?thesis by blast
qed

lemma stringify_limit:
  assumes "heap_text_of_prims h" and "text_of_prims v"
  shows "\<exists>N res. \<forall>n\<ge>N. stringify n h v opts = Some res"
proof -
  let ?p = "\<lparr>wrapWidth = (case optWrapWidth opts of None \<Rightarrow> 120 | Some x \<Rightarrow> x),
             indent = (case optBaseIndent opts of
               Some (Inr s) \<Rightarrow> s
             | Some (Inl n) \<Rightarrow> spaceWithLength n
             | None \<Rightarrow> spaceWithLength 0),
             indentIncrement = (case optIndentIncrement opts of
               Some (Inr s) \<Rightarrow> s
             | Some (Inl n) \<Rightarrow> spaceWithLength n
             | None \<Rightarrow> spaceWithLength 2)\<rparr>"
  from render_limit[OF assms, of ?p "{}"] obtain N y where
    n': "\<forall>n\<ge>N. render n h v ?p {} = Some y" by blast
  have n: "render n h v ?p {} = Some y" if "N \<le> n" for n
    using n' that by blast
  obtain res W where y: "y = (res, W)" by (cases y)
  have "stringify n h v opts = Some (case res of Inl e \<Rightarrow> Inl e | Inr r \<Rightarrow> Inr (content r))"
    if "N \<le> n" for n
    using n[OF that] y by (simp add: stringify_def stringify_with_def Let_def split: sum.splits)
  then show ?thesis by blast
qed

lemma render_circular:
  "map_of h a = Some c \<Longrightarrow> a \<in> V \<Longrightarrow>
     render (Suc n) h (Ref a) p V = Some (Inr \<lparr>isMultiline = False, content = ''<circular>''\<rparr>, V)"
  by (simp add: circular_def text_render_def to_strings_def text_layout_def split_lines_def)

lemma render_enter:
  assumes "map_of h a = Some c" and "a \<notin> V"
  shows "render (Suc n) h (Ref a) p V =
           (case node_render (host_to_string n h) (render n h) (resolve h c) p (insert a V) of
              None \<Rightarrow> None
            | Some (res, visited) \<Rightarrow> Some (res, V))"
proof (cases "node_render (host_to_string n h) (render n h) (resolve h c) p (insert a V)")
  case None
  with assms show ?thesis by simp
next
  case (Some y)
  obtain res W where y: "y = (res, W)" by (cases y)
  have "W = insert a V"
    using node_render_restores[of "render n h" "host_to_string n h" "resolve h c" p "insert a V" res W]
      render_restores[of n h] Some y by blast
  with assms Some y show ?thesis by simp
qed

lemma render_all_siblings:
  assumes "render_all (\<lambda>x. render n h x p) xs V = Some (Inr rs, V')"
  shows "V' = V \<and> length rs = length xs \<and>
         (\<forall>i<length xs. render n h (xs ! i) p V = Some (Inr (rs ! i), V))"
  using assms
proof (induction xs arbitrary: rs)
  case Nil
  then show ?case by simp
next
  case (Cons x xs)
  from Cons.prems obtain r1 s1 where fx: "render n h x p V = Some (Inr r1, s1)"
    by (auto split: option.splits sum.splits prod.splits)
  from render_restores[OF fx] have s1: "s1 = V" .
  from Cons.prems fx s1 obtain rs1 where
    rest: "render_all (\<lambda>x. render n h x p) xs V = Some (Inr rs1, V')" and rs: "rs = r1 # rs1"
    by (auto split: option.splits sum.splits prod.splits)
  from Cons.IH[OF rest] fx s1 rs show ?case
    by (auto simp: nth_Cons split: nat.splits)
qed

lemma stringify_mono:
  assumes "n \<le> m" and "stringify n h v opts = Some res"
  shows "stringify m h v opts = Some res"
  using assms(2) unfolding stringify_def
  by (rule stringify_with_mono[rotated]) (rule render_mono[OF assms(1)])

section \<open>Facts about sorted lists and the default formatter\<close>

lemma map_insort_key: "map f (insort_key f x xs) = insort (f x) (map f xs)"
  by (induction xs) auto

lemma map_sort_key: "map f (sort_key f xs) = sort (map f xs)"
  by (induction xs) (auto simp: map_insort_key)

lemma sort_mset_cong: "mset xs = mset ys \<Longrightarrow> sort xs = sort ys"
  by (rule sort_key_eq_sort_key) auto

lemma sum_list_mset_cong: "mset xs = mset ys \<Longrightarrow> sum_list xs = sum_list (ys :: nat list)"
  by (metis sum_mset_sum_list)

lemma list_layout_perm:
  assumes "mset rs = mset rs'"
  shows "list_layout joiner True rs p = list_layout joiner True rs' p"
proof -
  from assms have c: "mset (map content rs) = mset (map content rs')" by simp
  have m: "map content (sort_key content rs) = map content (sort_key content rs')"
    using sort_mset_cong[OF c] by (simp add: map_sort_key)
  have l: "length rs = length rs'" using assms by (metis size_mset)
  have s: "set rs = set rs'" using assms by (rule mset_eq_setD)
  have "(\<Sum>x\<leftarrow>sort_key content rs. length (content x)) =
        sum_list (map length (map content (sort_key content rs)))"
    by (simp add: comp_def)
  also have "\<dots> = sum_list (map length (map content (sort_key content rs')))"
    by (simp only: m)
  also have "\<dots> = (\<Sum>x\<leftarrow>sort_key content rs'. length (content x))"
    by (simp add: comp_def)
  finally have sm: "(\<Sum>x\<leftarrow>sort_key content rs. length (content x)) =
        (\<Sum>x\<leftarrow>sort_key content rs'. length (content x))" .
  show ?thesis
    by (simp add: list_layout_def sort_rendered_def Let_def m l s sm list_ex_iff)
qed

lemma render_all_pure:
  "(\<And>x. x \<in> set xs \<Longrightarrow> f x s = Some (Inr (g x), s)) \<Longrightarrow>
     render_all f xs s = Some (Inr (map g xs), s)"
  by (induction xs) auto

lemma sorted_list_perm:
  assumes perm: "mset xs = mset ys"
    and r: "render (Suc n) h (NodeV (ListN joiner xs True)) p V = Some (Inr r, V')"
  shows "render (Suc n) h (NodeV (ListN joiner ys True)) p V = Some (Inr r, V') \<and>
         (\<exists>rs. render_all (\<lambda>x. render n h x p) xs V = Some (Inr rs, V') \<and>
            content r =
              join (if isMultiline r then trimEnd joiner @ LF # indent p else joiner)
                (map content (sort_key content rs)) \<and>
            sorted (map content (sort_key content rs)) \<and>
            (\<forall>k. filter (\<lambda>x. content x = k) (sort_key content rs) =
                 filter (\<lambda>x. content x = k) rs))"
proof -
  from r obtain rs where
    rs: "render_all (\<lambda>x. render n h x p) xs V = Some (Inr rs, V')" and
    lay: "r = list_layout joiner True rs p"
    by (auto split: option.splits sum.splits prod.splits)
  from render_all_siblings[OF rs] have v: "V' = V" and len: "length rs = length xs" and
    each: "\<And>i. i < length xs \<Longrightarrow> render n h (xs ! i) p V = Some (Inr (rs ! i), V)"
    by auto
  define g where "g x = (case render n h x p V of Some (Inr r, W) \<Rightarrow> r)" for x
  have gx: "render n h x p V = Some (Inr (g x), V)" if "x \<in> set xs" for x
  proof -
    from that obtain i where "i < length xs" "x = xs ! i" by (auto simp: in_set_conv_nth)
    with each[of i] show ?thesis by (simp add: g_def)
  qed
  have "rs = map g xs"
  proof (rule nth_equalityI)
    show "length rs = length (map g xs)" using len by simp
  next
    fix i assume "i < length rs"
    with len each[of i] show "rs ! i = map g xs ! i" by (simp add: g_def)
  qed
  have "set ys = set xs" using perm by (metis mset_eq_setD)
  with gx have "render_all (\<lambda>x. render n h x p) ys V = Some (Inr (map g ys), V)"
    by (intro render_all_pure) simp
  moreover have "mset (map g ys) = mset rs"
    using perm \<open>rs = map g xs\<close> by simp
  ultimately have "render (Suc n) h (NodeV (ListN joiner ys True)) p V = Some (Inr r, V')"
    using lay v list_layout_perm[of "map g ys" rs joiner p] by simp
  moreover have "content r =
      join (if isMultiline r then trimEnd joiner @ LF # indent p else joiner)
        (map content (sort_key content rs))"
    by (simp add: lay list_layout_def sort_rendered_def Let_def)
  ultimately show ?thesis using rs sort_key_stable[of content _ rs] by auto
qed

lemma function_as_object:
  assumes "map_of h a = Some (Value (Function src props))"
  shows "resolve h (Value (Function src props)) = resolve h (Value (Plain props)) \<and>
         resolve h (Value (Function src props)) = objectLike h (entries props) \<and>
         render (Suc n) h (Ref a) p V =
           (if a \<in> V then Some (Inr \<lparr>isMultiline = False, content = ''<circular>''\<rparr>, V)
            else (case node_render (host_to_string n h) (render n h)
                         (objectLike h (entries props)) p (insert a V) of
                    None \<Rightarrow> None
                  | Some (res, visited) \<Rightarrow> Some (res, visited - {a}))) \<and>
         (props = [] \<and> a \<notin> V \<and> enat (length (indent p) + 4) \<le> wrapWidth p \<and>
          enat (length (indent p) + length (indentIncrement p)) \<le> wrapWidth p \<longrightarrow>
            render (Suc (Suc n)) h (Ref a) p V =
              Some (Inr \<lparr>isMultiline = False, content = ''{  }''\<rparr>, V))"
proof -
  have e: "render (Suc (Suc n)) h (Ref a) p V =
              Some (Inr \<lparr>isMultiline = False, content = ''{  }''\<rparr>, V)"
    if "props = []" "a \<notin> V" "enat (length (indent p) + 4) \<le> wrapWidth p"
      "enat (length (indent p) + length (indentIncrement p)) \<le> wrapWidth p"
    using that assms
    by (simp add: objectLike_def entries_def list_layout_def sort_rendered_def Let_def
          block_layout_def singleLineLength_def includes_nl_def not_less eval_nat_numeral)
  show ?thesis
    using assms e render_circular[OF assms, of V n p]
    by (simp del: render.simps add: render.simps(2)[of n h "Ref a"])
qed

section \<open>A cycle through an interpolation of a Text\<close>

text \<open>
  The array \<open>a\<close> with \<open>a = [text`${b}`]\<close> and \<open>b = block`<${a}>`\<close>: the Text converts
  \<open>b\<close> by its \<open>toString\<close>, a call of \<open>stringify\<close> with an ancestry set of its own,
  which renders \<open>a\<close> again. No call in this cycle returns, at any depth.
\<close>

lemma text_cycle_never_returns:
  fixes h :: heap
  defines "B \<equiv> Block [''<'', ''>''] [Ref 0]"
  defines "T \<equiv> Text ['''', ''''] [NodeV B]"
  defines "L \<equiv> ListN '', '' [NodeV T] False"
  assumes h: "h = [(0, Value (Array [NodeV T]))]"
  shows "(\<forall>p. render n h (Ref 0) p {} = None) \<and>
         (\<forall>p. render n h (NodeV B) p {} = None) \<and>
         host_to_string n h (NodeV B) = None \<and>
         (\<forall>p V. render n h (NodeV T) p V = None) \<and>
         (\<forall>p V. render n h (NodeV L) p V = None)"
proof (induction n)
  case 0
  show ?case by simp
next
  case (Suc n)
  have r0: "render (Suc n) h (Ref 0) p {} = None" for p
    using Suc by (simp add: h L_def)
  have rb: "render (Suc n) h (NodeV B) p {} = None" for p
    using Suc by (simp add: B_def)
  have hs: "host_to_string (Suc n) h (NodeV B) = None"
    using rb by (simp add: node_toString_def stringify_with_def Let_def del: render.simps)
  have rt: "render (Suc n) h (NodeV T) p V = None" for p V
    using Suc by (simp add: T_def text_render_def to_strings_def string_of_def)
  have rl: "render (Suc n) h (NodeV L) p V = None" for p V
    using Suc by (simp add: L_def)
  from r0 rb hs rt rl show ?case by blast
qed

section \<open>The wrap decision of a Block\<close>

text \<open>
  C1. For every Block node and every render context, the result is multiline exactly when
  (a) the render of some interpolated child is multiline, or (b) the length of the indent
  plus the single-line candidate length (the lengths of the literal fragments plus the
  lengths of the rendered children's contents) exceeds the wrap width, or (c) some literal
  fragment contains a line break. With an infinite wrap width (b) is false.
\<close>

theorem block_wrap_decision:
  assumes "node_render str rnd (Block strings interpolations) p s = Some (Inr r, s')"
  shows "\<exists>rs. render_all (\<lambda>x. rnd x (p\<lparr>indent := indent p @ indentIncrement p\<rparr>)) interpolations s
                 = Some (Inr rs, s') \<and>
           (isMultiline r \<longleftrightarrow>
              (\<exists>c \<in> set rs. isMultiline c) \<or>
              enat (length (indent p) +
                    (sum_list (map length strings) + sum_list (map (\<lambda>c. length (content c)) rs)))
                > wrapWidth p \<or>
              (\<exists>f \<in> set strings. LF \<in> set f)) \<and>
           (wrapWidth p = \<infinity> \<longrightarrow>
              \<not> enat (length (indent p) +
                    (sum_list (map length strings) + sum_list (map (\<lambda>c. length (content c)) rs)))
                > wrapWidth p)"
  using assms
  by (auto simp: block_layout_def Let_def singleLineLength_def list_ex_iff includes_nl_def
           split: option.splits sum.splits prod.splits)

theorem block_wrap_decision_witness:
  "node_render (host_to_string 2 []) (render 2 []) (Block [''{ '', '' }''] [NodeV (Text [''foo''] [])])
       \<lparr>wrapWidth = 6, indent = [], indentIncrement = ''  ''\<rparr> {}
     = Some (Inr \<lparr>isMultiline = True, content = CHR ''{'' # LF # ''  foo'' @ LF # ''}''\<rparr>, {}) \<and>
   (\<exists>rs. render_all (\<lambda>x. render 2 [] x \<lparr>wrapWidth = 6, indent = ''  '', indentIncrement = ''  ''\<rparr>)
            [NodeV (Text [''foo''] [])] {} = Some (Inr rs, {}) \<and>
      ((\<exists>c \<in> set rs. isMultiline c) \<or>
       enat (0 + (sum_list (map length [''{ '', '' }'']) + sum_list (map (\<lambda>c. length (content c)) rs))) > 6 \<or>
       (\<exists>f \<in> set [''{ '', '' }'']. LF \<in> set f)))"
proof -
  have h: "node_render (host_to_string 2 []) (render 2 []) (Block [''{ '', '' }''] [NodeV (Text [''foo''] [])])
       \<lparr>wrapWidth = 6, indent = [], indentIncrement = ''  ''\<rparr> {}
     = Some (Inr \<lparr>isMultiline = True, content = CHR ''{'' # LF # ''  foo'' @ LF # ''}''\<rparr>, {})"
    by code_simp
  from block_wrap_decision[OF h] obtain rs where
    "render_all (\<lambda>x. render 2 [] x \<lparr>wrapWidth = 6, indent = ''  '', indentIncrement = ''  ''\<rparr>)
            [NodeV (Text [''foo''] [])] {} = Some (Inr rs, {})"
    "(\<exists>c \<in> set rs. isMultiline c) \<or>
       enat (0 + (sum_list (map length [''{ '', '' }'']) + sum_list (map (\<lambda>c. length (content c)) rs))) > 6 \<or>
       (\<exists>f \<in> set [''{ '', '' }'']. LF \<in> set f)"
    by (simp del: render_all.simps render.simps) blast
  with h show ?thesis by blast
qed

section \<open>String literals\<close>

text \<open>
  C8. \<open>stringifyStringLiteral\<close> wraps the string in single quotes and escapes NUL,
  backspace, form feed, newline, carriage return, tab, vertical tab and backslash; an
  embedded single quote, however, comes out as backslash-t, the escape of a tab, and not
  as an escaped quote: the strings \<open>'\<close> and tab have the same literal.
\<close>

theorem stringifyStringLiteral_quote:
  "stringifyStringLiteral [QUOTE] = [QUOTE, BACKSLASH, CHR ''t'', QUOTE] \<and>
   stringifyStringLiteral [QUOTE] \<noteq> [QUOTE, BACKSLASH, QUOTE, QUOTE] \<and>
   stringifyStringLiteral [QUOTE] = stringifyStringLiteral [CHR 0x09] \<and>
   stringifyStringLiteral [CHR 0x00, CHR 0x08, CHR 0x0C, LF, CR, CHR 0x09, CHR 0x0B, BACKSLASH] =
     QUOTE # [BACKSLASH, CHR ''0'', BACKSLASH, CHR ''b'', BACKSLASH, CHR ''f'', BACKSLASH, CHR ''n'',
              BACKSLASH, CHR ''r'', BACKSLASH, CHR ''t'', BACKSLASH, CHR ''v'', BACKSLASH, BACKSLASH]
       @ [QUOTE]"
  by (simp add: stringifyStringLiteral_def escapeSubstitutes_def)

section \<open>Malformed construction\<close>

text \<open>
  C9. A Block or an Inline built with a number of fragments that is not one more than the
  number of children fails at once. A Text so built is returned to the caller as a node;
  the mismatch is thrown by \<open>interpolate\<close> only when the node is rendered.
\<close>

theorem text_node_mismatch_deferred:
  "text_node [''a'', ''b'', ''c''] [Prim (Str ''x'')] = Inr (Text [''a'', ''b'', ''c''] [Prim (Str ''x'')]) \<and>
   node_render str rnd (Text [''a'', ''b'', ''c''] [Prim (Str ''x'')]) p s =
     Some (Inl ExpectsOneMoreString, s) \<and>
   block [''a'', ''b'', ''c''] [Prim (Str ''x'')] = Inl ExpectedOneMoreString \<and>
   inline [''a'', ''b'', ''c''] [Prim (Str ''x'')] = Inl ExpectedOneMoreString"
  by (simp add: text_node_def block_def inline_def text_render_def to_strings_def string_of_def
        text_layout_def)

section \<open>Width respect\<close>

text \<open>
  C3 fails for a Text node, which never looks at the wrap width: \<open>text`foo`\<close> at wrap
  width 0 is the single line \<open>foo\<close>.
\<close>

theorem text_ignores_wrap_width:
  "node_render (host_to_string 0 []) (render 0 []) (Text [''foo''] [])
       \<lparr>wrapWidth = 0, indent = [], indentIncrement = ''  ''\<rparr> ({} :: addr set)
     = Some (Inr \<lparr>isMultiline = False, content = ''foo''\<rparr>, {}) \<and>
   \<not> enat (length ([] :: string) + length ''foo'') \<le> 0"
  by (simp add: text_render_def to_strings_def text_layout_def split_lines_def zero_enat_def)

text \<open>
  C3, amended. For every Block, Inline or List node rendered with wrap width \<open>w\<close> and
  indent \<open>i\<close>: if the result is not multiline, the length of \<open>i\<close> plus the length of the
  content is at most \<open>w\<close>.
\<close>

theorem width_respect:
  assumes "node_render str rnd nd p s = Some (Inr r, s')"
    and "\<forall>strings ips. nd \<noteq> Text strings ips"
    and "\<not> isMultiline r"
  shows "enat (length (indent p) + length (content r)) \<le> wrapWidth p"
  using assms by (rule node_render_width)

theorem width_respect_witness:
  "node_render (host_to_string 2 []) (render 2 [])
       (Block [''['', '']''] [NodeV (ListN '', '' [Prim (Number 1), Prim (Number 2)] False)])
       \<lparr>wrapWidth = 10, indent = ''    '', indentIncrement = ''  ''\<rparr> {}
     = Some (Inr \<lparr>isMultiline = False, content = ''[1, 2]''\<rparr>, {}) \<and>
   enat (length ''    '' + length ''[1, 2]'') \<le> 10"
proof -
  have h: "node_render (host_to_string 2 []) (render 2 [])
       (Block [''['', '']''] [NodeV (ListN '', '' [Prim (Number 1), Prim (Number 2)] False)])
       \<lparr>wrapWidth = 10, indent = ''    '', indentIncrement = ''  ''\<rparr> {}
     = Some (Inr \<lparr>isMultiline = False, content = ''[1, 2]''\<rparr>, {})"
    by code_simp
  from width_respect[OF h] h show ?thesis by simp
qed

section \<open>Single line or multiline\<close>

text \<open>
  C4. For every result of a Text, Block, Inline or List node under any render context
  (whose \<open>render\<close> callback returns results with the same property): if the result is not
  multiline, its content contains no line feed. The \<open>render\<close> of \<open>stringify\<close> is such a
  callback: every result it returns has the property.
\<close>

theorem single_line_has_no_line_break:
  "((\<forall>x q t r' t'. rnd x q t = Some (Inr r', t') \<longrightarrow> \<not> isMultiline r' \<longrightarrow> LF \<notin> set (content r')) \<longrightarrow>
      node_render str rnd nd p s = Some (Inr r, s') \<longrightarrow> \<not> isMultiline r \<longrightarrow> LF \<notin> set (content r)) \<and>
   (render n h v q V = Some (Inr r2, V') \<longrightarrow> \<not> isMultiline r2 \<longrightarrow> LF \<notin> set (content r2))"
  using node_render_single_line[of rnd str nd p s r s'] render_single_line[of n h v q V r2 V']
  by blast

theorem single_line_has_no_line_break_witness:
  "node_render (host_to_string 2 []) (render 2 [])
       (Block [''['', '']''] [NodeV (ListN '', '' [Prim (Number 1), Prim (Number 2)] False)])
       \<lparr>wrapWidth = 10, indent = ''    '', indentIncrement = ''  ''\<rparr> {}
     = Some (Inr \<lparr>isMultiline = False, content = ''[1, 2]''\<rparr>, {}) \<and>
   LF \<notin> set ''[1, 2]''"
proof -
  let ?nd = "Block [''['', '']''] [NodeV (ListN '', '' [Prim (Number 1), Prim (Number 2)] False)]"
  let ?p = "\<lparr>wrapWidth = 10, indent = ''    '', indentIncrement = ''  ''\<rparr>"
  let ?r = "\<lparr>isMultiline = False, content = ''[1, 2]''\<rparr>"
  have h: "node_render (host_to_string 2 []) (render 2 []) ?nd ?p {} = Some (Inr ?r, {})"
    by code_simp
  have cb: "\<forall>x q t r' t'. render 2 [] x q t = Some (Inr r', t') \<longrightarrow> \<not> isMultiline r' \<longrightarrow>
              LF \<notin> set (content r')"
    using single_line_has_no_line_break[where n = 2 and h = "[]", THEN conjunct2] by blast
  from single_line_has_no_line_break[of "render 2 []" "host_to_string 2 []" ?nd ?p "{}" ?r "{}",
      THEN conjunct1] cb h
  have "LF \<notin> set (content ?r)" by (simp del: render.simps node_render.simps)
  with h show ?thesis by simp
qed

section \<open>Re-indentation of a Text\<close>




section \<open>Cycles\<close>

text \<open>
  C2 says that \<open>stringify\<close> terminates on every value graph. It does not when a cycle
  passes through an interpolation of a Text node: for the array \<open>a = [text`${b}`]\<close> with
  \<open>b = block`<${a}>`\<close>, \<open>stringify(a)\<close> returns at no depth of recursion, and no
  \<open><circular>\<close> is ever rendered. The same cycle through an Inline in the place of the
  Text is found: \<open>stringify(a)\<close> is \<open>[<<circular>>]\<close>.
\<close>

theorem text_interpolation_cycle_not_detected:
  "(\<forall>n. stringify n
           [(0, Value (Array [NodeV (Text ['''', ''''] [NodeV (Block [''<'', ''>''] [Ref 0])])]))]
           (Ref 0)
           \<lparr>optWrapWidth = None, optIndentIncrement = None, optBaseIndent = None\<rparr>
         = None) \<and>
   stringify 5
       [(0, Value (Array [NodeV (Inline ['''', ''''] [NodeV (Block [''<'', ''>''] [Ref 0])])]))]
       (Ref 0)
       \<lparr>optWrapWidth = None, optIndentIncrement = None, optBaseIndent = None\<rparr>
     = Some (Inr ''[<<circular>>]'')"
proof -
  let ?h = "[(0 :: addr, Value (Array [NodeV (Text ['''', ''''] [NodeV (Block [''<'', ''>''] [Ref 0])])]))]"
  let ?o = "\<lparr>optWrapWidth = None, optIndentIncrement = None, optBaseIndent = None\<rparr>"
  have "stringify n ?h (Ref 0) ?o = None" for n
    using text_cycle_never_returns[of ?h n]
    by (simp add: stringify_def stringify_with_def Let_def del: render.simps)
  moreover have "stringify 5
       [(0, Value (Array [NodeV (Inline ['''', ''''] [NodeV (Block [''<'', ''>''] [Ref 0])])]))]
       (Ref 0) ?o = Some (Inr ''[<<circular>>]'')"
    by code_simp
  ultimately show ?thesis by blast
qed

section \<open>Sorted lists\<close>

text \<open>
  C6. A List with \<open>sort\<close> joins its items in the lexicographic order of their rendered
  contents, items with equal contents in their original order; so two sequences of items
  that are permutations of each other render, with the same joiner and parameters, to the
  same result.
\<close>

theorem sorted_list_deterministic:
  assumes "mset xs = mset ys"
    and "render (Suc n) h (NodeV (ListN joiner xs True)) p V = Some (Inr r, V')"
  shows "render (Suc n) h (NodeV (ListN joiner ys True)) p V = Some (Inr r, V') \<and>
         (\<exists>rs. render_all (\<lambda>x. render n h x p) xs V = Some (Inr rs, V') \<and>
            content r =
              join (if isMultiline r then trimEnd joiner @ LF # indent p else joiner)
                (map content (sort_key content rs)) \<and>
            sorted (map content (sort_key content rs)) \<and>
            (\<forall>k. filter (\<lambda>x. content x = k) (sort_key content rs) =
                 filter (\<lambda>x. content x = k) rs))"
  using assms by (rule sorted_list_perm)

theorem sorted_list_deterministic_witness:
  "mset [Prim (Number 3), Prim (Str ''b''), Prim (Number 1), Prim (Number 20)] =
     mset [Prim (Number 20), Prim (Number 1), Prim (Number 3), Prim (Str ''b'')] \<and>
   render (Suc 2) []
       (NodeV (ListN '', '' [Prim (Number 3), Prim (Str ''b''), Prim (Number 1), Prim (Number 20)] True))
       \<lparr>wrapWidth = 120, indent = [], indentIncrement = ''  ''\<rparr> {}
     = Some (Inr \<lparr>isMultiline = False, content = [QUOTE] @ ''b'' @ [QUOTE] @ '', 1, 20, 3''\<rparr>, {}) \<and>
   render (Suc 2) []
       (NodeV (ListN '', '' [Prim (Number 20), Prim (Number 1), Prim (Number 3), Prim (Str ''b'')] True))
       \<lparr>wrapWidth = 120, indent = [], indentIncrement = ''  ''\<rparr> {}
     = Some (Inr \<lparr>isMultiline = False, content = [QUOTE] @ ''b'' @ [QUOTE] @ '', 1, 20, 3''\<rparr>, {})"
proof -
  have a: "mset [Prim (Number 3), Prim (Str ''b''), Prim (Number 1), Prim (Number 20)] =
     mset [Prim (Number 20), Prim (Number 1), Prim (Number 3), Prim (Str ''b'')]"
    by simp
  have b: "render (Suc 2) []
       (NodeV (ListN '', '' [Prim (Number 3), Prim (Str ''b''), Prim (Number 1), Prim (Number 20)] True))
       \<lparr>wrapWidth = 120, indent = [], indentIncrement = ''  ''\<rparr> {}
     = Some (Inr \<lparr>isMultiline = False, content = [QUOTE] @ ''b'' @ [QUOTE] @ '', 1, 20, 3''\<rparr>, {})"
    by code_simp
  from sorted_list_deterministic[OF a b] a b show ?thesis by blast
qed

section \<open>Plain objects\<close>

text \<open>
  C7. The entries of a plain object are to appear in insertion order, as the test
  \<open>object\<close> expects of \<open>{ a: 1, '#b': 2, c: 3 }\<close>. \<open>objectLike\<close> builds its list with
  \<open>sort: true\<close>, so the entries come out in the order of their rendered text, the
  quoted key first, on one line and on several; \<open>{ b: 1, a: 2 }\<close> renders as
  \<open>{ a: 2, b: 1 }\<close>.
\<close>

theorem plain_object_not_in_insertion_order:
  "stringify 6
       [(0, Value (Plain [(''a'', Prim (Number 1)), (''#b'', Prim (Number 2)), (''c'', Prim (Number 3))]))]
       (Ref 0) \<lparr>optWrapWidth = None, optIndentIncrement = None, optBaseIndent = None\<rparr>
     = Some (Inr (''{ '' @ [QUOTE] @ ''#b'' @ [QUOTE] @ '': 2, a: 1, c: 3 }'')) \<and>
   ''{ '' @ [QUOTE] @ ''#b'' @ [QUOTE] @ '': 2, a: 1, c: 3 }'' \<noteq>
     ''{ a: 1, '' @ [QUOTE] @ ''#b'' @ [QUOTE] @ '': 2, c: 3 }'' \<and>
   stringify 6
       [(0, Value (Plain [(''a'', Prim (Number 1)), (''#b'', Prim (Number 2)), (''c'', Prim (Number 3))]))]
       (Ref 0) \<lparr>optWrapWidth = Some 0, optIndentIncrement = None, optBaseIndent = Some (Inr ''      '')\<rparr>
     = Some (Inr (''{'' @ [LF] @ ''        '' @ [QUOTE] @ ''#b'' @ [QUOTE] @ '': 2,'' @ [LF] @
                  ''        a: 1,'' @ [LF] @ ''        c: 3'' @ [LF] @ ''      }'')) \<and>
   stringify 6 [(0, Value (Plain [(''b'', Prim (Number 1)), (''a'', Prim (Number 2))]))] (Ref 0)
       \<lparr>optWrapWidth = None, optIndentIncrement = None, optBaseIndent = None\<rparr>
     = Some (Inr ''{ a: 2, b: 1 }'')"
  by code_simp

section \<open>Functions\<close>

text \<open>
  C10. A function value that is not itself a node is rendered by the default formatter's
  plain-object branch: the \<open>{ ... }\<close> form of \<open>objectLike\<close> over its enumerable own
  properties, which for a function without such properties is \<open>{  }\<close> when that fits the
  wrap width. Cycle detection applies to it: while the function is in the ancestry set it
  renders as \<open><circular>\<close>, otherwise it is in the ancestry set while its properties are
  rendered and is removed afterwards.
\<close>

theorem function_renders_as_object:
  assumes "map_of h a = Some (Value (Function src props))"
  shows "resolve h (Value (Function src props)) = resolve h (Value (Plain props)) \<and>
         resolve h (Value (Function src props)) = objectLike h (entries props) \<and>
         render (Suc n) h (Ref a) p V =
           (if a \<in> V then Some (Inr \<lparr>isMultiline = False, content = ''<circular>''\<rparr>, V)
            else (case node_render (host_to_string n h) (render n h)
                         (objectLike h (entries props)) p (insert a V) of
                    None \<Rightarrow> None
                  | Some (res, visited) \<Rightarrow> Some (res, visited - {a}))) \<and>
         (props = [] \<and> a \<notin> V \<and> enat (length (indent p) + 4) \<le> wrapWidth p \<and>
          enat (length (indent p) + length (indentIncrement p)) \<le> wrapWidth p \<longrightarrow>
            render (Suc (Suc n)) h (Ref a) p V =
              Some (Inr \<lparr>isMultiline = False, content = ''{  }''\<rparr>, V))"
  using assms by (rule function_as_object)

theorem function_renders_as_object_witness:
  "map_of [(0 :: addr, Value (Function ''function f() {}'' [])),
           (1, Value (Function ''function g() {}'' [(''self'', Ref 1)]))] 0 =
     Some (Value (Function ''function f() {}'' [])) \<and>
   render (Suc (Suc 0))
       [(0, Value (Function ''function f() {}'' [])),
        (1, Value (Function ''function g() {}'' [(''self'', Ref 1)]))] (Ref 0)
       \<lparr>wrapWidth = 120, indent = [], indentIncrement = ''  ''\<rparr> {}
     = Some (Inr \<lparr>isMultiline = False, content = ''{  }''\<rparr>, {}) \<and>
   render (Suc 0)
       [(0, Value (Function ''function f() {}'' [])),
        (1, Value (Function ''function g() {}'' [(''self'', Ref 1)]))] (Ref 0)
       \<lparr>wrapWidth = 120, indent = [], indentIncrement = ''  ''\<rparr> {0}
     = Some (Inr \<lparr>isMultiline = False, content = ''<circular>''\<rparr>, {0}) \<and>
   stringify 6
       [(0, Value (Function ''function f() {}'' [])),
        (1, Value (Function ''function g() {}'' [(''self'', Ref 1)]))] (Ref 1)
       \<lparr>optWrapWidth = None, optIndentIncrement = None, optBaseIndent = None\<rparr>
     = Some (Inr ''{ self: <circular> }'')"
proof -
  let ?h = "[(0 :: nat, Value (Function ''function f() {}'' [])),
             (1, Value (Function ''function g() {}'' [(''self'', Ref 1)]))]"
  let ?p = "\<lparr>wrapWidth = 120, indent = [], indentIncrement = ''  ''\<rparr>"
  have a: "map_of ?h 0 = Some (Value (Function ''function f() {}'' []))" by simp
  note f = function_renders_as_object[OF a]
  have w: "enat (length (indent ?p) + 4) \<le> wrapWidth ?p \<and>
           enat (length (indent ?p) + length (indentIncrement ?p)) \<le> wrapWidth ?p"
    by (simp add: numeral_eq_enat)
  from f[of 0 ?p "{}"] w have b: "render (Suc (Suc 0)) ?h (Ref 0) ?p {} =
      Some (Inr \<lparr>isMultiline = False, content = ''{  }''\<rparr>, {})"
    by (simp del: render.simps)
  from f[of 0 ?p "{0}"] have c: "render (Suc 0) ?h (Ref 0) ?p {0} =
      Some (Inr \<lparr>isMultiline = False, content = ''<circular>''\<rparr>, {0})"
    by (simp del: render.simps)
  have d: "stringify 6 ?h (Ref 1)
       \<lparr>optWrapWidth = None, optIndentIncrement = None, optBaseIndent = None\<rparr>
     = Some (Inr ''{ self: <circular> }'')"
    by code_simp
  from a b c d show ?thesis by blast
qed

end
